theory Spec2Isabelle
  imports Main "HOL-Library.AList"
begin

section \<open>The prime generator\<close>

text \<open>
  \<open>PrimeGenerator\<close> holds the primes found so far and the limit of the last sieve.
  \<open>generate_up_to\<close> is \<open>_generate_up_to\<close>: a sieve of Eratosthenes over \<open>0..n\<close> whose new
  entries above the old limit are appended. The bound \<open>int(n ** 0.5)\<close> of the outer loop is
  taken as the integer square root \<open>isqrt\<close>, which is what the floating-point expression
  yields for the limits that occur here. \<open>range_step\<close> is \<open>range(start, stop, step)\<close>.
\<close>

record PrimeGenerator =
  primes :: "int list"
  sieve_limit :: nat

definition range_step :: "nat \<Rightarrow> nat \<Rightarrow> nat \<Rightarrow> nat list" where
  "range_step start stop step =
     map (\<lambda>k. start + k * step) [0..<(stop - start + step - 1) div step]"

primrec isqrt :: "nat \<Rightarrow> nat" where
  "isqrt 0 = 0"
| "isqrt (Suc n) = (let r = isqrt n in if (r + 1) * (r + 1) \<le> Suc n then r + 1 else r)"

definition mark_multiples :: "nat \<Rightarrow> nat \<Rightarrow> bool list \<Rightarrow> bool list" where
  "mark_multiples p n sieve = fold (\<lambda>m s. s[m := False]) (range_step (p * p) (n + 1) p) sieve"

definition sieve_step :: "nat \<Rightarrow> nat \<Rightarrow> bool list \<Rightarrow> bool list" where
  "sieve_step n p sieve = (if sieve ! p then mark_multiples p n sieve else sieve)"

definition sieve_init :: "nat \<Rightarrow> bool list" where
  "sieve_init n = (replicate (n + 1) True)[0 := False, 1 := False]"

definition run_sieve :: "nat \<Rightarrow> bool list" where
  "run_sieve n = fold (sieve_step n) [2..<isqrt n + 1] (sieve_init n)"

definition generate_up_to :: "nat \<Rightarrow> PrimeGenerator \<Rightarrow> PrimeGenerator" where
  "generate_up_to n g =
     (if n \<le> sieve_limit g then g
      else let sieve = run_sieve n in
        \<lparr>primes = primes g @ map int (filter (\<lambda>i. sieve ! i) [max 2 (sieve_limit g + 1)..<n + 1]),
         sieve_limit = n\<rparr>)"

text \<open>The specification the sieve is checked against.\<close>

definition is_prime :: "nat \<Rightarrow> bool" where
  "is_prime n = (2 \<le> n \<and> list_all (\<lambda>d. \<not> d dvd n) [2..<n])"

lemma is_prime_iff: "is_prime n \<longleftrightarrow> 2 \<le> n \<and> (\<forall>d. d dvd n \<longrightarrow> d = 1 \<or> d = n)"
proof
  assume p: "is_prime n"
  show "2 \<le> n \<and> (\<forall>d. d dvd n \<longrightarrow> d = 1 \<or> d = n)"
  proof (intro conjI allI impI)
    show "2 \<le> n" using p by (simp add: is_prime_def)
  next
    fix d assume d: "d dvd n"
    have n: "2 \<le> n" using p by (simp add: is_prime_def)
    have "d \<le> n" using d n by (auto intro: dvd_imp_le)
    moreover have "d \<noteq> 0" using d n by (intro notI) simp
    moreover have "\<not> (2 \<le> d \<and> d < n)" using p d by (auto simp: is_prime_def list_all_iff)
    ultimately show "d = 1 \<or> d = n" by arith
  qed
next
  assume "2 \<le> n \<and> (\<forall>d. d dvd n \<longrightarrow> d = 1 \<or> d = n)"
  then show "is_prime n" by (auto simp: is_prime_def list_all_iff)
qed

lemma prime_factor_exists:
  assumes "2 \<le> n"
  shows "\<exists>q. is_prime q \<and> q dvd n \<and> (is_prime n \<or> q * q \<le> n)"
proof -
  define q where "q = (LEAST d. 2 \<le> d \<and> d dvd n)"
  have ex: "2 \<le> n \<and> n dvd n" using assms by simp
  have q: "2 \<le> q \<and> q dvd n" unfolding q_def by (rule LeastI [of _ n]) (rule ex)
  have least: "\<And>d. 2 \<le> d \<Longrightarrow> d dvd n \<Longrightarrow> q \<le> d"
    unfolding q_def by (rule Least_le) simp
  have qp: "is_prime q"
  proof -
    have "\<And>d. d dvd q \<Longrightarrow> d = 1 \<or> d = q"
    proof -
      fix d assume d: "d dvd q"
      have "d dvd n" using d q by (meson dvd_trans)
      moreover have "d \<le> q" using d q by (auto intro: dvd_imp_le)
      moreover have "d \<noteq> 0" using d q by (intro notI) simp
      ultimately show "d = 1 \<or> d = q" using least [of d] by (cases "2 \<le> d") auto
    qed
    then show ?thesis using q by (simp add: is_prime_iff)
  qed
  have "is_prime n \<or> q * q \<le> n"
  proof (cases "q = n")
    case True
    then show ?thesis using qp by simp
  next
    case False
    obtain m where m: "n = q * m" using q by (auto elim: dvdE)
    have "m dvd n" using m by simp
    moreover have "m \<noteq> 1" using m False by auto
    moreover have "m \<noteq> 0" using m assms by (intro notI) simp
    ultimately have "q \<le> m" using least [of m] by (cases "2 \<le> m") auto
    then have "q * q \<le> q * m" by simp
    then show ?thesis using m by simp
  qed
  then show ?thesis using qp q by blast
qed

lemma primes_unbounded: "\<exists>p. is_prime p \<and> n < p"
proof -
  have "2 \<le> fact n + (1::nat)"
    by (metis add_le_mono1 fact_ge_1 one_add_one)
  then obtain q where q: "is_prime q" "q dvd fact n + 1"
    using prime_factor_exists by blast
  have "n < q"
  proof (rule ccontr)
    assume "\<not> n < q"
    then have "q \<le> n" by simp
    moreover have "1 \<le> q" using q(1) by (simp add: is_prime_def)
    ultimately have "q dvd fact n" by (simp add: dvd_fact)
    then have "q dvd (fact n + 1) - fact n" using q(2) by (intro dvd_diff_nat)
    then have "q dvd 1" by simp
    then show False using q(1) by (simp add: is_prime_def)
  qed
  then show ?thesis using q(1) by blast
qed


lemma isqrt_spec: "isqrt n * isqrt n \<le> n \<and> n < (isqrt n + 1) * (isqrt n + 1)"
  by (induction n) (auto simp: Let_def)

lemma le_isqrt: "q * q \<le> n \<Longrightarrow> q \<le> isqrt n"
proof (rule ccontr)
  assume a: "q * q \<le> n" and b: "\<not> q \<le> isqrt n"
  from b have "isqrt n + 1 \<le> q" by simp
  then have "(isqrt n + 1) * (isqrt n + 1) \<le> q * q" using mult_le_mono by blast
  then show False using a isqrt_spec [of n] by simp
qed

lemma range_step_multiple:
  "m \<in> set (range_step (p * p) stop p) \<Longrightarrow> \<exists>k. m = p * (p + k)"
  by (auto simp: range_step_def algebra_simps)

lemma range_step_member:
  assumes "0 < p" "p \<le> j" "p * j < stop"
  shows "p * j \<in> set (range_step (p * p) stop p)"
proof -
  define k where "k = j - p"
  have pj: "p * j = p * p + k * p" using assms(2) by (simp add: k_def algebra_simps)
  have "k * p + p \<le> stop - p * p + p - 1" using assms(3) pj by simp
  then have "Suc k * p \<le> stop - p * p + p - 1" by simp
  then have "Suc k \<le> (stop - p * p + p - 1) div p"
    using assms(1) by (simp add: less_eq_div_iff_mult_less_eq)
  then have "k \<in> set [0..<(stop - p * p + p - 1) div p]" by simp
  then have "p * p + k * p \<in> set (range_step (p * p) stop p)"
    unfolding range_step_def by (simp del: set_upt) blast
  then show ?thesis using pj by simp
qed

lemma fold_mark_length: "length (fold (\<lambda>m s. s[m := False]) ms s) = length s"
  by (induction ms arbitrary: s) auto

lemma nth_update_False: "i < length s \<Longrightarrow> s[a := False] ! i = (s ! i \<and> a \<noteq> i)"
  by (cases "a = i") auto

lemma fold_mark_nth:
  "i < length s \<Longrightarrow> fold (\<lambda>m s. s[m := False]) ms s ! i = (s ! i \<and> i \<notin> set ms)"
  by (induction ms arbitrary: s) (auto simp: nth_update_False)

lemma sieve_step_length: "length (sieve_step n p s) = length s"
  by (simp add: sieve_step_def mark_multiples_def fold_mark_length)

lemma sieve_step_mono: "i < length s \<Longrightarrow> sieve_step n p s ! i \<Longrightarrow> s ! i"
  by (simp add: sieve_step_def mark_multiples_def fold_mark_nth split: if_splits)

lemma sieve_step_keeps_prime:
  assumes "i < length s" "s ! i" "is_prime i" "2 \<le> p"
  shows "sieve_step n p s ! i"
proof -
  have "i \<notin> set (range_step (p * p) (n + 1) p)"
  proof
    assume "i \<in> set (range_step (p * p) (n + 1) p)"
    then obtain k where k: "i = p * (p + k)" using range_step_multiple by blast
    then have "p dvd i" by simp
    then have "p = 1 \<or> p = i" using assms(3) by (simp add: is_prime_iff)
    then have "p = i" using assms(4) by simp
    then have "p * 1 = p * (p + k)" using k by simp
    then have "1 = p + k" using assms(4) by (simp del: mult_1_right)
    then show False using assms(4) by simp
  qed
  then show ?thesis using assms(1,2)
    by (simp add: sieve_step_def mark_multiples_def fold_mark_nth)
qed

lemma sieve_fold_length: "length (fold (sieve_step n) ps s) = length s"
  by (induction ps arbitrary: s) (auto simp: sieve_step_length)

lemma sieve_fold_mono: "i < length s \<Longrightarrow> fold (sieve_step n) ps s ! i \<Longrightarrow> s ! i"
proof (induction ps arbitrary: s)
  case Nil
  then show ?case by simp
next
  case (Cons p ps)
  have "sieve_step n p s ! i"
    using Cons.IH [of "sieve_step n p s"] Cons.prems by (simp add: sieve_step_length)
  then show ?case using Cons.prems(1) by (rule sieve_step_mono [rotated])
qed

lemma sieve_fold_keeps_prime:
  "i < length s \<Longrightarrow> s ! i \<Longrightarrow> is_prime i \<Longrightarrow> \<forall>p\<in>set ps. 2 \<le> p \<Longrightarrow>
   fold (sieve_step n) ps s ! i"
proof (induction ps arbitrary: s)
  case Nil
  then show ?case by simp
next
  case (Cons p ps)
  have "sieve_step n p s ! i" using Cons.prems by (intro sieve_step_keeps_prime) auto
  then show ?case using Cons.IH [of "sieve_step n p s"] Cons.prems
    by (simp add: sieve_step_length)
qed

lemma sieve_fold_marks:
  assumes "q \<in> set ps" "\<forall>p\<in>set ps. 2 \<le> p" "is_prime q" "q < length s"
    and "\<forall>j<length s. is_prime j \<longrightarrow> s ! j"
    and "i < length s" "i \<in> set (range_step (q * q) (n + 1) q)"
  shows "\<not> fold (sieve_step n) ps s ! i"
  using assms
proof (induction ps arbitrary: s)
  case Nil
  then show ?case by simp
next
  case (Cons p ps)
  let ?s = "sieve_step n p s"
  have len: "length ?s = length s" by (rule sieve_step_length)
  have inv: "\<forall>j<length ?s. is_prime j \<longrightarrow> ?s ! j"
    using Cons.prems(2,5) by (auto simp: len intro: sieve_step_keeps_prime)
  show ?case
  proof (cases "p = q")
    case True
    have "s ! q" using Cons.prems(3,4,5) by simp
    then have "\<not> ?s ! i" using Cons.prems(6,7) True
      by (simp add: sieve_step_def mark_multiples_def fold_mark_nth)
    then have "\<not> fold (sieve_step n) ps ?s ! i"
      using sieve_fold_mono [of i ?s n ps] Cons.prems(6) len by auto
    then show ?thesis by simp
  next
    case False
    then have "q \<in> set ps" using Cons.prems(1) by simp
    then have "\<not> fold (sieve_step n) ps ?s ! i"
      using Cons.IH [of ?s] Cons.prems inv len by simp
    then show ?thesis by simp
  qed
qed

lemma sieve_init_length: "length (sieve_init n) = n + 1"
  by (simp add: sieve_init_def)

lemma sieve_init_nth: "j < n + 1 \<Longrightarrow> sieve_init n ! j \<longleftrightarrow> 2 \<le> j"
proof -
  assume j: "j < n + 1"
  have "(replicate (n + 1) True) ! j" using j by (simp only: nth_replicate)
  then show ?thesis unfolding sieve_init_def using j
    by (simp only: nth_update_False length_list_update length_replicate) auto
qed

lemma run_sieve_length: "length (run_sieve n) = n + 1"
  by (simp add: run_sieve_def sieve_fold_length sieve_init_length)

lemma run_sieve_nth:
  assumes "i \<le> n"
  shows "run_sieve n ! i \<longleftrightarrow> is_prime i"
proof -
  let ?s0 = "sieve_init n"
  let ?ps = "[2..<isqrt n + 1]"
  have rs: "run_sieve n = fold (sieve_step n) ?ps ?s0"
    by (simp add: run_sieve_def)
  have len: "length ?s0 = n + 1" by (rule sieve_init_length)
  have i: "i < length ?s0" using assms by (simp add: len)
  have s0: "\<And>j. j < length ?s0 \<Longrightarrow> ?s0 ! j \<longleftrightarrow> 2 \<le> j"
    by (simp add: len sieve_init_nth)
  have inv0: "\<forall>j<length ?s0. is_prime j \<longrightarrow> ?s0 ! j"
    using s0 by (auto simp: is_prime_def)
  have ps: "\<forall>p\<in>set ?ps. 2 \<le> p" by auto
  show ?thesis
  proof
    assume a: "run_sieve n ! i"
    then have "?s0 ! i" using sieve_fold_mono [OF i] rs by simp
    then have i2: "2 \<le> i" using s0 [OF i] by simp
    show "is_prime i"
    proof (rule ccontr)
      assume np: "\<not> is_prime i"
      obtain q where q: "is_prime q" "q dvd i" "q * q \<le> i"
        using prime_factor_exists [OF i2] np by blast
      have q2: "2 \<le> q" using q(1) by (simp add: is_prime_def)
      have "q * q \<le> n" using q(3) assms by simp
      then have "q \<le> isqrt n" by (rule le_isqrt)
      then have qin: "q \<in> set ?ps" using q2 by auto
      have "q \<le> q * q" using q2 by simp
      then have "q \<le> n" using \<open>q * q \<le> n\<close> by (rule le_trans)
      then have qlen: "q < length ?s0" by (simp add: len)
      obtain j where j: "i = q * j" using q(2) by (auto elim: dvdE)
      have "q \<le> j"
      proof (rule ccontr)
        assume "\<not> q \<le> j"
        then have "j < q" by simp
        then have "q * j < q * q" using q2 by simp
        then show False using q(3) j by simp
      qed
      then have "q * j \<in> set (range_step (q * q) (n + 1) q)"
        using q2 assms j by (intro range_step_member) auto
      then have "i \<in> set (range_step (q * q) (n + 1) q)" using j by simp
      then have "\<not> fold (sieve_step n) ?ps ?s0 ! i"
        using sieve_fold_marks [OF qin ps q(1) qlen inv0 i] by simp
      then show False using a rs by simp
    qed
  next
    assume p: "is_prime i"
    then have "?s0 ! i" using inv0 i by blast
    then show "run_sieve n ! i" unfolding rs
      using i p ps by (intro sieve_fold_keeps_prime)
  qed
qed

lemma generate_up_to_primes:
  "sieve_limit g < n \<Longrightarrow>
   generate_up_to n g =
     \<lparr>primes = primes g @ map int (filter is_prime [sieve_limit g + 1..<n + 1]), sieve_limit = n\<rparr>"
proof -
  assume a: "sieve_limit g < n"
  have 1: "filter (\<lambda>i. run_sieve n ! i) [max 2 (sieve_limit g + 1)..<n + 1]
      = filter is_prime [max 2 (sieve_limit g + 1)..<n + 1]"
    by (rule filter_cong) (auto simp: run_sieve_nth)
  have 2: "filter is_prime [sieve_limit g + 1..<n + 1] = filter is_prime [max 2 (sieve_limit g + 1)..<n + 1]"
  proof (cases "sieve_limit g = 0")
    case True
    have "filter is_prime [0 + 1..<n + 1] = filter is_prime [Suc (0 + 1)..<n + 1]"
      by (subst upt_rec) (simp add: is_prime_def)
    moreover have "Suc (0 + 1) = max 2 (0 + 1)" by simp
    ultimately show ?thesis using True by (simp only:)
  next
    case False
    then show ?thesis by (simp add: max_def)
  qed
  have c: "\<not> n \<le> sieve_limit g" using a by simp
  show ?thesis unfolding generate_up_to_def Let_def by (simp only: c if_False 1 2)
qed


text \<open>
  \<open>get\<close> doubles the limit (\<open>self._sieve_limit * 2 or 1000\<close>) while the index is out of
  range. The loop ends because there are infinitely many primes and the sieve finds all of
  them up to its limit; that is its termination proof.
\<close>

definition next_limit :: "PrimeGenerator \<Rightarrow> nat" where
  "next_limit g = (if sieve_limit g * 2 = 0 then 1000 else sieve_limit g * 2)"

function get_loop :: "nat \<Rightarrow> PrimeGenerator \<Rightarrow> PrimeGenerator" where
  "get_loop index g =
     (if index \<ge> length (primes g)
      then get_loop index (generate_up_to (next_limit g) g)
      else g)"
  by pat_completeness auto

definition pcount :: "nat \<Rightarrow> nat \<Rightarrow> nat" where
  "pcount L N = length (filter is_prime [L + 1..<N + 1])"

lemma pcount_split: "L \<le> M \<Longrightarrow> M \<le> N \<Longrightarrow> pcount L N = pcount L M + pcount M N"
proof -
  assume a: "L \<le> M" "M \<le> N"
  obtain k where k: "N + 1 = (M + 1) + k" using a(2) by (metis add_le_mono1 le_Suc_ex)
  have "[L + 1..<(M + 1) + k] = [L + 1..<M + 1] @ [M + 1..<(M + 1) + k]"
    using a(1) by (intro upt_add_eq_append) simp
  then have "[L + 1..<N + 1] = [L + 1..<M + 1] @ [M + 1..<N + 1]"
    by (simp only: k)
  then show ?thesis by (simp only: pcount_def filter_append length_append)
qed

lemma pcount_mono: "L \<le> M \<Longrightarrow> M \<le> N \<Longrightarrow> pcount L M \<le> pcount L N"
  using pcount_split [of L M N] by simp

lemma pcount_self: "pcount L L = 0"
  by (simp add: pcount_def)

lemma pcount_unbounded: "\<exists>N. L \<le> N \<and> k \<le> pcount L N"
proof (induction k)
  case 0
  then show ?case by auto
next
  case (Suc k)
  then obtain N where N: "L \<le> N" "k \<le> pcount L N" by blast
  obtain p where p: "is_prime p" "N < p" using primes_unbounded by blast
  have "pcount N p \<ge> 1"
  proof -
    have "p \<in> set (filter is_prime [N + 1..<p + 1])" using p by simp
    then have "filter is_prime [N + 1..<p + 1] \<noteq> []" by (metis empty_iff empty_set)
    then show ?thesis unfolding pcount_def by (simp add: Suc_le_eq)
  qed
  moreover have "pcount L p = pcount L N + pcount N p"
    using N(1) p(2) by (intro pcount_split) auto
  ultimately have "Suc k \<le> pcount L p" using N(2) by simp
  moreover have "L \<le> p" using N(1) p(2) by simp
  ultimately show ?case by blast
qed

lemma generate_up_to_next:
  "sieve_limit (generate_up_to (next_limit g) g) = next_limit g \<and>
   length (primes (generate_up_to (next_limit g) g))
     = length (primes g) + pcount (sieve_limit g) (next_limit g) \<and>
   sieve_limit g < next_limit g"
proof -
  have lt: "sieve_limit g < next_limit g" by (simp add: next_limit_def)
  show ?thesis using lt by (simp add: generate_up_to_primes [OF lt] pcount_def)
qed

definition get_bound :: "nat \<Rightarrow> PrimeGenerator \<Rightarrow> nat" where
  "get_bound index g =
     (LEAST N. sieve_limit g \<le> N \<and> index < length (primes g) + pcount (sieve_limit g) N)"

lemma get_bound_props:
  "sieve_limit g \<le> get_bound index g \<and>
   index < length (primes g) + pcount (sieve_limit g) (get_bound index g)"
proof -
  obtain N where "sieve_limit g \<le> N" "Suc index \<le> pcount (sieve_limit g) N"
    using pcount_unbounded by blast
  then have "sieve_limit g \<le> N \<and> index < length (primes g) + pcount (sieve_limit g) N"
    by simp
  then show ?thesis unfolding get_bound_def by (rule LeastI)
qed

lemma get_bound_le:
  "sieve_limit g \<le> N \<Longrightarrow> index < length (primes g) + pcount (sieve_limit g) N \<Longrightarrow>
   get_bound index g \<le> N"
  unfolding get_bound_def by (rule Least_le) simp

lemma get_loop_decreases:
  assumes "length (primes g) \<le> index"
  shows "get_bound index (generate_up_to (next_limit g) g) - next_limit g
         < get_bound index g - sieve_limit g"
proof -
  let ?g' = "generate_up_to (next_limit g) g"
  let ?L = "sieve_limit g" and ?L' = "next_limit g" and ?N = "get_bound index g"
  have g': "sieve_limit ?g' = ?L'"
    "length (primes ?g') = length (primes g) + pcount ?L ?L'" "?L < ?L'"
    using generate_up_to_next [of g] by auto
  have N: "?L \<le> ?N" "index < length (primes g) + pcount ?L ?N"
    using get_bound_props [of g index] by auto
  have "?N \<noteq> ?L" using N(2) assms by (auto simp: pcount_self)
  then have NL: "?L < ?N" using N(1) by simp
  show ?thesis
  proof (cases "?N \<le> ?L'")
    case True
    have "pcount ?L ?N \<le> pcount ?L ?L'" using N(1) True by (rule pcount_mono)
    then have "index < length (primes ?g') + pcount (sieve_limit ?g') ?L'"
      using N(2) g' by simp
    then have "get_bound index ?g' \<le> ?L'" using g'(1) by (intro get_bound_le) auto
    then show ?thesis using NL by simp
  next
    case False
    then have le: "?L' \<le> ?N" by simp
    have "pcount ?L ?N = pcount ?L ?L' + pcount ?L' ?N"
      using g'(3) le by (intro pcount_split) auto
    then have "index < length (primes ?g') + pcount (sieve_limit ?g') ?N"
      using N(2) g' by simp
    then have "get_bound index ?g' \<le> ?N" using g'(1) le by (intro get_bound_le) auto
    then show ?thesis using g'(3) le by simp
  qed
qed

termination get_loop
  by (relation "measure (\<lambda>(index, g). get_bound index g - sieve_limit g)")
     (use get_loop_decreases generate_up_to_next in auto)

declare get_loop.simps [simp del]

definition get :: "nat \<Rightarrow> PrimeGenerator \<Rightarrow> int \<times> PrimeGenerator" where
  "get index g = (let g' = get_loop index g in (primes g' ! index, g'))"

definition PrimeGenerator_init :: "nat \<Rightarrow> PrimeGenerator" where
  "PrimeGenerator_init initial_limit = generate_up_to initial_limit \<lparr>primes = [], sieve_limit = 0\<rparr>"


text \<open>Trial division, used to evaluate \<open>is_prime\<close> on concrete numbers.\<close>

function no_divisor :: "nat \<Rightarrow> nat \<Rightarrow> bool" where
  "no_divisor d n = (if n < d * d then True else if d dvd n then False else no_divisor (d + 1) n)"
  by pat_completeness auto
termination
proof (relation "measure (\<lambda>(d, n). n + 1 - d)")
  show "wf (measure (\<lambda>(d, n). n + 1 - d))" by simp
next
  fix d n :: nat
  assume a: "\<not> n < d * d" "\<not> d dvd n"
  have "d \<le> d * d" by (cases d) auto
  moreover have "d * d \<le> n" using a(1) by simp
  ultimately have "d \<le> n" by (rule le_trans)
  then show "((d + 1, n), (d, n)) \<in> measure (\<lambda>(d, n). n + 1 - d)" by simp
qed

declare no_divisor.simps [simp del]

lemma no_divisor_iff: "no_divisor d n \<longleftrightarrow> (\<forall>q. d \<le> q \<and> q * q \<le> n \<longrightarrow> \<not> q dvd n)"
proof (induction d n rule: no_divisor.induct)
  case (1 d n)
  show ?case
  proof (cases "n < d * d")
    case True
    have "\<not> q * q \<le> n" if "d \<le> q" for q
    proof
      assume "q * q \<le> n"
      moreover have "d * d \<le> q * q" using that by (simp add: mult_le_mono)
      ultimately show False using True by simp
    qed
    moreover have "no_divisor d n" using True by (subst no_divisor.simps) simp
    ultimately show ?thesis by blast
  next
    case False
    show ?thesis
    proof (cases "d dvd n")
      case True
      have "\<not> no_divisor d n" using False True by (subst no_divisor.simps) simp
      moreover have "d \<le> d \<and> d * d \<le> n \<and> d dvd n" using False True by simp
      ultimately show ?thesis by blast
    next
      case nd: False
      have a: "no_divisor d n = no_divisor (d + 1) n"
        using False nd by (subst no_divisor.simps) simp
      have b: "no_divisor (d + 1) n \<longleftrightarrow> (\<forall>q. d + 1 \<le> q \<and> q * q \<le> n \<longrightarrow> \<not> q dvd n)"
        using "1.IH" False nd by simp
      have c: "(\<forall>q. d + 1 \<le> q \<and> q * q \<le> n \<longrightarrow> \<not> q dvd n) \<longleftrightarrow>
               (\<forall>q. d \<le> q \<and> q * q \<le> n \<longrightarrow> \<not> q dvd n)"
      proof (intro iffI allI impI)
        fix q assume h: "\<forall>q. d + 1 \<le> q \<and> q * q \<le> n \<longrightarrow> \<not> q dvd n" and q: "d \<le> q \<and> q * q \<le> n"
        show "\<not> q dvd n"
        proof (cases "q = d")
          case True
          then show ?thesis using nd by simp
        next
          case False
          then have "d + 1 \<le> q" using q by simp
          then show ?thesis using h q by blast
        qed
      next
        fix q assume h: "\<forall>q. d \<le> q \<and> q * q \<le> n \<longrightarrow> \<not> q dvd n" and q: "d + 1 \<le> q \<and> q * q \<le> n"
        have "d \<le> q" using q by simp
        then show "\<not> q dvd n" using h q by blast
      qed
      show ?thesis by (simp only: a b c)
    qed
  qed
qed

lemma is_prime_trial: "is_prime n \<longleftrightarrow> 2 \<le> n \<and> no_divisor 2 n"
proof
  assume p: "is_prime n"
  have n2: "2 \<le> n" using p by (simp add: is_prime_def)
  have "\<not> q dvd n" if q: "2 \<le> q \<and> q * q \<le> n" for q
  proof
    assume "q dvd n"
    then have "q = 1 \<or> q = n" using p by (simp add: is_prime_iff)
    then have qn: "q = n" using q by simp
    have "n * n \<le> n" using q qn by simp
    then show False using n2 by simp
  qed
  then have "no_divisor 2 n" by (simp only: no_divisor_iff) blast
  then show "2 \<le> n \<and> no_divisor 2 n" using n2 by simp
next
  assume a: "2 \<le> n \<and> no_divisor 2 n"
  then obtain q where q: "is_prime q" "q dvd n" "is_prime n \<or> q * q \<le> n"
    using prime_factor_exists by blast
  have q2: "2 \<le> q" using q(1) by (simp add: is_prime_def)
  have nd: "\<forall>q. 2 \<le> q \<and> q * q \<le> n \<longrightarrow> \<not> q dvd n"
    using a by (simp add: no_divisor_iff)
  show "is_prime n" using nd q q2 by blast
qed


text \<open>The states of a generator: exactly the primes up to its limit, in increasing order.\<close>

definition pg_wf :: "PrimeGenerator \<Rightarrow> bool" where
  "pg_wf g = (primes g = map int (filter is_prime [0 + 1..<sieve_limit g + 1]))"

lemma generate_up_to_appends: "\<exists>ys. primes (generate_up_to n g) = primes g @ ys"
  by (simp add: generate_up_to_def Let_def)

lemma get_loop_appends: "\<exists>ys. primes (get_loop i g) = primes g @ ys"
proof (induction i g rule: get_loop.induct)
  case (1 index g)
  show ?case
  proof (cases "length (primes g) \<le> index")
    case True
    then have "get_loop index g = get_loop index (generate_up_to (next_limit g) g)"
      by (subst get_loop.simps) simp
    moreover obtain ys where "primes (get_loop index (generate_up_to (next_limit g) g))
        = primes (generate_up_to (next_limit g) g) @ ys"
      using "1.IH" True by blast
    moreover obtain zs where "primes (generate_up_to (next_limit g) g) = primes g @ zs"
      using generate_up_to_appends by blast
    ultimately show ?thesis by simp
  next
    case False
    then show ?thesis by (subst get_loop.simps) simp
  qed
qed

lemma get_loop_length: "i < length (primes (get_loop i g))"
proof (induction i g rule: get_loop.induct)
  case (1 index g)
  show ?case
  proof (cases "length (primes g) \<le> index")
    case True
    then have "get_loop index g = get_loop index (generate_up_to (next_limit g) g)"
      by (subst get_loop.simps) simp
    then show ?thesis using "1.IH" True by simp
  next
    case False
    then show ?thesis by (subst get_loop.simps) simp
  qed
qed

lemma get_loop_id: "i < length (primes g) \<Longrightarrow> get_loop i g = g"
  by (subst get_loop.simps) simp

lemma pg_wf_generate: "pg_wf g \<Longrightarrow> pg_wf (generate_up_to n g)"
proof (cases "sieve_limit g < n")
  case True
  assume wf: "pg_wf g"
  obtain k where k: "n + 1 = (sieve_limit g + 1) + k" using True by (metis add_le_mono1 le_Suc_ex less_imp_le)
  have "[0 + 1..<(sieve_limit g + 1) + k] = [0 + 1..<sieve_limit g + 1] @ [sieve_limit g + 1..<(sieve_limit g + 1) + k]"
    by (intro upt_add_eq_append) simp
  then have "[0 + 1..<n + 1] = [0 + 1..<sieve_limit g + 1] @ [sieve_limit g + 1..<n + 1]"
    by (simp only: k)
  then show ?thesis using wf
    by (simp only: pg_wf_def generate_up_to_primes [OF True] filter_append map_append
        PrimeGenerator.simps)
next
  case False
  assume "pg_wf g"
  then show ?thesis using False by (simp add: generate_up_to_def)
qed

lemma pg_wf_get_loop: "pg_wf g \<Longrightarrow> pg_wf (get_loop i g)"
proof (induction i g rule: get_loop.induct)
  case (1 index g)
  show ?case
  proof (cases "length (primes g) \<le> index")
    case True
    then have "get_loop index g = get_loop index (generate_up_to (next_limit g) g)"
      by (subst get_loop.simps) simp
    then show ?thesis using "1.IH" True "1.prems" pg_wf_generate by simp
  next
    case False
    then show ?thesis using "1.prems" by (subst get_loop.simps) simp
  qed
qed

lemma pg_wf_init: "pg_wf (PrimeGenerator_init n)"
  unfolding PrimeGenerator_init_def by (rule pg_wf_generate) (simp add: pg_wf_def)

lemma primes_chunk_2: "filter is_prime [2..<100] =
    [2, 3, 5, 7, 11, 13, 17, 19, 23, 29, 31, 37, 41, 43, 47, 53, 59, 61, 67, 71, 73, 79, 83,
     89, 97]"
  by (simp add: is_prime_trial no_divisor.simps)

lemma primes_chunk_100: "filter is_prime [100..<200] =
    [101, 103, 107, 109, 113, 127, 131, 137, 139, 149, 151, 157, 163, 167, 173, 179, 181,
     191, 193, 197, 199]"
  by (simp add: is_prime_trial no_divisor.simps)

lemma primes_chunk_200: "filter is_prime [200..<300] =
    [211, 223, 227, 229, 233, 239, 241, 251, 257, 263, 269, 271, 277, 281, 283, 293]"
  by (simp add: is_prime_trial no_divisor.simps)

lemma primes_chunk_300: "filter is_prime [300..<400] =
    [307, 311, 313, 317, 331, 337, 347, 349, 353, 359, 367, 373, 379, 383, 389, 397]"
  by (simp add: is_prime_trial no_divisor.simps)

lemma primes_chunk_400: "filter is_prime [400..<500] =
    [401, 409, 419, 421, 431, 433, 439, 443, 449, 457, 461, 463, 467, 479, 487, 491, 499]"
  by (simp add: is_prime_trial no_divisor.simps)

lemma primes_chunk_500: "filter is_prime [500..<600] =
    [503, 509, 521, 523, 541, 547, 557, 563, 569, 571, 577, 587, 593, 599]"
  by (simp add: is_prime_trial no_divisor.simps)

lemma primes_chunk_600: "filter is_prime [600..<700] =
    [601, 607, 613, 617, 619, 631, 641, 643, 647, 653, 659, 661, 673, 677, 683, 691]"
  by (simp add: is_prime_trial no_divisor.simps)

lemma primes_chunk_700: "filter is_prime [700..<800] =
    [701, 709, 719, 727, 733, 739, 743, 751, 757, 761, 769, 773, 787, 797]"
  by (simp add: is_prime_trial no_divisor.simps)

lemma primes_chunk_800: "filter is_prime [800..<900] =
    [809, 811, 821, 823, 827, 829, 839, 853, 857, 859, 863, 877, 881, 883, 887]"
  by (simp add: is_prime_trial no_divisor.simps)

lemma primes_chunk_900: "filter is_prime [900..<1001] =
    [907, 911, 919, 929, 937, 941, 947, 953, 967, 971, 977, 983, 991, 997]"
  by (simp add: is_prime_trial no_divisor.simps)


lemma filter_upt_split:
  "a \<le> b \<Longrightarrow> b \<le> c \<Longrightarrow> filter P [a..<c] = filter P [a..<b] @ filter P [b..<c]"
  by (metis filter_append le_Suc_ex upt_add_eq_append)

definition primes_upto_1000 :: "int list" where
  "primes_upto_1000 =
    [2, 3, 5, 7, 11, 13, 17, 19, 23, 29, 31, 37, 41, 43, 47, 53, 59, 61, 67, 71, 73, 79, 83,
     89, 97, 101, 103, 107, 109, 113, 127, 131, 137, 139, 149, 151, 157, 163, 167, 173, 179,
     181, 191, 193, 197, 199, 211, 223, 227, 229, 233, 239, 241, 251, 257, 263, 269, 271,
     277, 281, 283, 293, 307, 311, 313, 317, 331, 337, 347, 349, 353, 359, 367, 373, 379,
     383, 389, 397, 401, 409, 419, 421, 431, 433, 439, 443, 449, 457, 461, 463, 467, 479,
     487, 491, 499, 503, 509, 521, 523, 541, 547, 557, 563, 569, 571, 577, 587, 593, 599,
     601, 607, 613, 617, 619, 631, 641, 643, 647, 653, 659, 661, 673, 677, 683, 691, 701,
     709, 719, 727, 733, 739, 743, 751, 757, 761, 769, 773, 787, 797, 809, 811, 821, 823,
     827, 829, 839, 853, 857, 859, 863, 877, 881, 883, 887, 907, 911, 919, 929, 937, 941,
     947, 953, 967, 971, 977, 983, 991, 997]"

lemma PrimeGenerator_init_1000:
  "PrimeGenerator_init 1000 = \<lparr>primes = primes_upto_1000, sieve_limit = 1000\<rparr>"
proof -
  have e: "(0::nat) + 1 = 1" "(1000::nat) + 1 = 1001" by simp_all
  have "filter is_prime [1..<1001] = filter is_prime [1..<2] @ filter is_prime [2..<1001]"
    by (rule filter_upt_split) simp_all
  moreover have "filter is_prime [1..<2] = []" by (simp add: is_prime_def)
  ultimately have s0: "filter is_prime [0 + 1..<1000 + 1] = filter is_prime [2..<1001]"
    by (simp only: e append_Nil)
  have s2: "filter is_prime [2..<1001] = filter is_prime [2..<100] @ filter is_prime [100..<1001]"
    by (rule filter_upt_split) simp_all
  have s100: "filter is_prime [100..<1001] = filter is_prime [100..<200] @ filter is_prime [200..<1001]"
    by (rule filter_upt_split) simp_all
  have s200: "filter is_prime [200..<1001] = filter is_prime [200..<300] @ filter is_prime [300..<1001]"
    by (rule filter_upt_split) simp_all
  have s300: "filter is_prime [300..<1001] = filter is_prime [300..<400] @ filter is_prime [400..<1001]"
    by (rule filter_upt_split) simp_all
  have s400: "filter is_prime [400..<1001] = filter is_prime [400..<500] @ filter is_prime [500..<1001]"
    by (rule filter_upt_split) simp_all
  have s500: "filter is_prime [500..<1001] = filter is_prime [500..<600] @ filter is_prime [600..<1001]"
    by (rule filter_upt_split) simp_all
  have s600: "filter is_prime [600..<1001] = filter is_prime [600..<700] @ filter is_prime [700..<1001]"
    by (rule filter_upt_split) simp_all
  have s700: "filter is_prime [700..<1001] = filter is_prime [700..<800] @ filter is_prime [800..<1001]"
    by (rule filter_upt_split) simp_all
  have s800: "filter is_prime [800..<1001] = filter is_prime [800..<900] @ filter is_prime [900..<1001]"
    by (rule filter_upt_split) simp_all
  have "map int (filter is_prime [0 + 1..<1000 + 1]) = primes_upto_1000"
    unfolding s0
    by (simp only: s2 s100 s200 s300 s400 s500 s600 s700 s800 primes_chunk_2 primes_chunk_100 primes_chunk_200 primes_chunk_300 primes_chunk_400 primes_chunk_500 primes_chunk_600 primes_chunk_700 primes_chunk_800 primes_chunk_900 append.simps list.map primes_upto_1000_def of_nat_numeral)
  moreover have "(0::nat) < 1000" by simp
  ultimately show ?thesis
    unfolding PrimeGenerator_init_def
    by (simp only: generate_up_to_primes PrimeGenerator.simps append_Nil)
qed

section \<open>Dictionaries, strings and errors\<close>

text \<open>
  A Python \<open>dict\<close> is an association list in insertion order with distinct keys:
  \<open>dict_set\<close> overwrites in place or appends, \<open>dict_del\<close> removes, and two dictionaries
  are equal (\<open>dict_eq\<close>) when they hold the same items, whatever the order. An exception is
  a value of type \<open>error\<close>, returned on the left of a sum.

  A \<open>char\<close> stands for a code point below 256, and \<open>lower\<close> is \<open>str.lower\<close> on such
  strings: it moves \<open>A..Z\<close> and the capital letters \<open>192..222\<close> of Latin-1 (all but the
  multiplication sign 215) up by 32 and leaves every other code point alone. The three
  operator symbols of the printed equations lie outside that range; they occur in output text
  only and are written there as their UTF-8 bytes.
\<close>

type_synonym ExponentMap = "(int \<times> int) list"

datatype error =
    ValueError string | KeyError | ZeroDivisionError | IndexError | AttributeError | RecursionError

definition dict_get :: "('k \<times> 'v) list \<Rightarrow> 'k \<Rightarrow> 'v \<Rightarrow> 'v" where
  "dict_get d k dflt = (case map_of d k of None \<Rightarrow> dflt | Some v \<Rightarrow> v)"

definition dict_set :: "'k \<Rightarrow> 'v \<Rightarrow> ('k \<times> 'v) list \<Rightarrow> ('k \<times> 'v) list" where
  "dict_set k v d = AList.update k v d"

definition dict_del :: "'k \<Rightarrow> ('k \<times> 'v) list \<Rightarrow> ('k \<times> 'v) list" where
  "dict_del k d = AList.delete k d"

definition dict_eq :: "('k \<times> 'v) list \<Rightarrow> ('k \<times> 'v) list \<Rightarrow> bool" where
  "dict_eq a b = (set a = set b)"

definition lower_char :: "char \<Rightarrow> char" where
  "lower_char c =
     (let k = (of_char c :: nat) in
      if (65 \<le> k \<and> k \<le> 90) \<or> (192 \<le> k \<and> k \<le> 222 \<and> k \<noteq> 215) then char_of (k + 32) else c)"

definition lower :: "string \<Rightarrow> string" where
  "lower s = map lower_char s"

section \<open>The encoder\<close>

text \<open>
  \<open>PrimeEncoder\<close> with its generator, the two directions of the concept registry, the index
  of the next prime to hand out, and the sign prime. The constructor registers \<open>_sign\<close>
  first, so the sign prime is the first prime.
\<close>

record PrimeEncoder =
  prime_gen :: PrimeGenerator
  concept_to_prime :: "(string \<times> int) list"
  prime_to_concept :: "(int \<times> string) list"
  next_index :: nat
  sign_prime :: int

definition assign_prime :: "string \<Rightarrow> PrimeEncoder \<Rightarrow> int \<times> PrimeEncoder" where
  "assign_prime concept e =
     (let (p, g) = get (next_index e) (prime_gen e) in
      (p, e\<lparr>prime_gen := g,
             next_index := next_index e + 1,
             concept_to_prime := dict_set concept p (concept_to_prime e),
             prime_to_concept := dict_set p concept (prime_to_concept e)\<rparr>))"

definition PrimeEncoder_init :: PrimeEncoder where
  "PrimeEncoder_init =
     (let e = \<lparr>prime_gen = PrimeGenerator_init 1000, concept_to_prime = [],
                prime_to_concept = [], next_index = 0, sign_prime = 0\<rparr>;
          (p, e) = assign_prime ''_sign'' e
      in e\<lparr>sign_prime := p\<rparr>)"

definition get_prime :: "string \<Rightarrow> PrimeEncoder \<Rightarrow> int \<times> PrimeEncoder" where
  "get_prime concept e =
     (let key = lower concept in
      case map_of (concept_to_prime e) key of
        Some p \<Rightarrow> (p, e)
      | None \<Rightarrow> assign_prime key e)"

text \<open>
  \<open>encode_integer\<close>. The inner \<open>while remaining % p == 0\<close> is \<open>divide_out\<close>, a loop that
  need not end in general (the result \<open>None\<close>); the \<open>for\<close> over \<open>range(self._next_index)\<close>
  is \<open>trial_division\<close>, and the enclosing \<open>while True\<close> runs its body once.
\<close>

partial_function (option) divide_out :: "int \<Rightarrow> int \<Rightarrow> ExponentMap \<Rightarrow> (error + int \<times> ExponentMap) option" where
  "divide_out p remaining encoding =
     (if p = 0 then Some (Inl ZeroDivisionError)
      else if remaining mod p = 0
      then divide_out p (remaining div p) (dict_set p (dict_get encoding p 0 + 1) encoding)
      else Some (Inr (remaining, encoding)))"

fun trial_division ::
  "nat list \<Rightarrow> PrimeGenerator \<Rightarrow> int \<Rightarrow> ExponentMap \<Rightarrow> (error + int \<times> ExponentMap \<times> PrimeGenerator) option" where
  "trial_division [] g remaining encoding = Some (Inr (remaining, encoding, g))"
| "trial_division (i # is) g remaining encoding =
     (let (p, g) = get i g in
      if p * p > remaining then Some (Inr (remaining, encoding, g))
      else case divide_out p remaining encoding of
             None \<Rightarrow> None
           | Some (Inl err) \<Rightarrow> Some (Inl err)
           | Some (Inr (remaining, encoding)) \<Rightarrow> trial_division is g remaining encoding)"

definition encode_integer :: "PrimeEncoder \<Rightarrow> int \<Rightarrow> (error + ExponentMap \<times> PrimeEncoder) option" where
  "encode_integer e n =
     (if n = 0 then Some (Inl (ValueError ''Zero cannot be encoded uniquely as a prime product.''))
      else
        let encoding = (if n < 0 then dict_set (sign_prime e) 1 [] else []);
            n = (if n < 0 then - n else n)
        in case trial_division [0..<next_index e] (prime_gen e) n encoding of
             None \<Rightarrow> None
           | Some (Inl err) \<Rightarrow> Some (Inl err)
           | Some (Inr (remaining, encoding, g)) \<Rightarrow>
               Some (Inr (if remaining > 1
                          then dict_set remaining (dict_get encoding remaining 0 + 1) encoding
                          else encoding,
                          e\<lparr>prime_gen := g\<rparr>)))"

text \<open>
  \<open>decode_integer\<close>. A negative exponent at a prime other than the sign prime makes
  \<open>p ** exp\<close> a float, or raises \<open>ZeroDivisionError\<close> when \<open>p\<close> is 0; from the first
  float on the computation is floating-point arithmetic, which is not modelled: the result
  \<open>PyFloat\<close> stands for whatever it yields.
\<close>

datatype number = PyInt int | PyFloat

fun decode_integer_loop :: "int \<Rightarrow> ExponentMap \<Rightarrow> int \<Rightarrow> int \<Rightarrow> error + number" where
  "decode_integer_loop sp [] sign res = Inr (PyInt (sign * res))"
| "decode_integer_loop sp ((p, exp) # items) sign res =
     (if p = sp then decode_integer_loop sp items (sign * (if exp mod 2 = 1 then - 1 else 1)) res
      else if exp < 0 then (if p = 0 then Inl ZeroDivisionError else Inr PyFloat)
      else decode_integer_loop sp items sign (res * p ^ nat exp))"

definition decode_integer :: "PrimeEncoder \<Rightarrow> ExponentMap \<Rightarrow> error + number" where
  "decode_integer e encoding = decode_integer_loop (sign_prime e) encoding 1 1"

definition multiply :: "ExponentMap \<Rightarrow> ExponentMap \<Rightarrow> ExponentMap" where
  "multiply a b =
     (let res = fold (\<lambda>(p, e) res. dict_set p (dict_get res p 0 + e) res) a [];
          res = fold (\<lambda>(p, e) res. dict_set p (dict_get res p 0 + e) res) b res
      in filter (\<lambda>(p, e). e \<noteq> 0) res)"

fun divide_loop :: "int \<Rightarrow> ExponentMap \<Rightarrow> ExponentMap \<Rightarrow> error + ExponentMap" where
  "divide_loop sp [] res = Inr res"
| "divide_loop sp ((p, e) # items) res =
     (if p = sp then divide_loop sp items (dict_set sp (dict_get res sp 0 - e) res)
      else let have = dict_get res p 0 in
        if have < e then Inl (ValueError ''Division results in non-integer.'')
        else let res = dict_set p (have - e) res;
                 res = (if dict_get res p 0 = 0 then dict_del p res else res)
             in divide_loop sp items res)"

definition divide_enc :: "PrimeEncoder \<Rightarrow> ExponentMap \<Rightarrow> ExponentMap \<Rightarrow> error + ExponentMap" where
  "divide_enc e a b = divide_loop (sign_prime e) b a"

definition encode_symbol :: "string \<Rightarrow> PrimeEncoder \<Rightarrow> ExponentMap \<times> PrimeEncoder" where
  "encode_symbol symbol e = (let (p, e) = get_prime symbol e in ([(p, 1)], e))"


section \<open>Facts, rules and the knowledge base\<close>

text \<open>
  The dictionary a rule is stored as becomes \<open>EncodedRule\<close>: \<open>UCRule\<close> for the types
  "universal" and "capability" (kind, category prime, property prime, predicate prime,
  condition and conclusion encodings), \<open>StdRule\<close> for every other type. The knowledge base
  and the reasoning engine are given the same encoder object, so the model keeps one encoder,
  inside the knowledge base, and threads the knowledge base through every operation. An
  operation that raises returns the error alone.
\<close>

record Fact =
  subject :: string
  predicate :: string
  object :: string

definition str_fact :: "Fact \<Rightarrow> string" where
  "str_fact f = subject f @ '' '' @ predicate f @ '' '' @ object f"

record Rule =
  conditions :: "Fact list"
  conclusion :: Fact
  type :: string
  category :: "string option"
  property :: "string option"
  capability :: "string option"

definition create_universal_rule :: "string \<Rightarrow> string \<Rightarrow> Rule" where
  "create_universal_rule cat prop =
     \<lparr>conditions = [\<lparr>subject = ''_x_'', predicate = ''is'', object = cat\<rparr>],
      conclusion = \<lparr>subject = ''_x_'', predicate = ''is'', object = prop\<rparr>,
      type = ''universal'', category = Some cat, property = Some prop, capability = None\<rparr>"

definition create_capability_rule :: "string \<Rightarrow> string \<Rightarrow> Rule" where
  "create_capability_rule cat cap =
     \<lparr>conditions = [\<lparr>subject = ''_x_'', predicate = ''is'', object = cat\<rparr>],
      conclusion = \<lparr>subject = ''_x_'', predicate = ''can'', object = cap\<rparr>,
      type = ''capability'', category = Some cat, property = None, capability = Some cap\<rparr>"

datatype RuleKind = Universal | Capability

datatype EncodedRule =
    UCRule RuleKind int int int ExponentMap ExponentMap
  | StdRule "ExponentMap list" ExponentMap

record KnowledgeBase =
  encoder :: PrimeEncoder
  fact_encodings :: "ExponentMap list"
  rules :: "EncodedRule list"
  facts :: "Fact list"

definition KnowledgeBase_init :: "PrimeEncoder \<Rightarrow> KnowledgeBase" where
  "KnowledgeBase_init e = \<lparr>encoder = e, fact_encodings = [], rules = [], facts = []\<rparr>"

definition kb_get_prime :: "string \<Rightarrow> KnowledgeBase \<Rightarrow> int \<times> KnowledgeBase" where
  "kb_get_prime concept kb =
     (let (p, e) = get_prime concept (encoder kb) in (p, kb\<lparr>encoder := e\<rparr>))"

definition encode_fact :: "Fact \<Rightarrow> KnowledgeBase \<Rightarrow> ExponentMap \<times> KnowledgeBase" where
  "encode_fact fct kb =
     (let (s_enc, e) = encode_symbol (subject fct) (encoder kb);
          (p_enc, e) = encode_symbol (predicate fct) e;
          (o_enc, e) = encode_symbol (object fct) e
      in (multiply (multiply s_enc p_enc) o_enc, kb\<lparr>encoder := e\<rparr>))"

definition add_fact :: "Fact \<Rightarrow> KnowledgeBase \<Rightarrow> ExponentMap \<times> KnowledgeBase" where
  "add_fact fct kb =
     (let (enc, kb) = encode_fact fct kb
      in (enc, kb\<lparr>fact_encodings := fact_encodings kb @ [enc], facts := facts kb @ [fct]\<rparr>))"

fun encode_facts :: "Fact list \<Rightarrow> KnowledgeBase \<Rightarrow> ExponentMap list \<times> KnowledgeBase" where
  "encode_facts [] kb = ([], kb)"
| "encode_facts (c # cs) kb =
     (let (enc, kb) = encode_fact c kb; (encs, kb) = encode_facts cs kb in (enc # encs, kb))"

definition add_rule :: "Rule \<Rightarrow> KnowledgeBase \<Rightarrow> error + EncodedRule \<times> KnowledgeBase" where
  "add_rule rule kb =
     (if type rule = ''universal'' \<or> type rule = ''capability'' then
        (case conditions rule of
           [] \<Rightarrow> Inl IndexError
         | cond # _ \<Rightarrow>
            let (cond_enc, kb) = encode_fact cond kb;
                (concl_enc, kb) = encode_fact (conclusion rule) kb
            in (case category rule of
                  None \<Rightarrow> Inl AttributeError
                | Some cat \<Rightarrow>
                   let (category_prime, kb) = kb_get_prime cat kb in
                   (case (if type rule = ''universal'' then property rule else capability rule) of
                      None \<Rightarrow> Inl AttributeError
                    | Some prop \<Rightarrow>
                       let (property_prime, kb) = kb_get_prime prop kb;
                           (predicate_prime, kb) =
                              kb_get_prime (if type rule = ''universal'' then ''is'' else ''can'') kb;
                           encoded_rule =
                              UCRule (if type rule = ''universal'' then Universal else Capability)
                                category_prime property_prime predicate_prime cond_enc concl_enc
                       in Inr (encoded_rule, kb\<lparr>rules := rules kb @ [encoded_rule]\<rparr>))))
      else
        let (cond_encs, kb) = encode_facts (conditions rule) kb;
            (concl_enc, kb) = encode_fact (conclusion rule) kb;
            encoded_rule = StdRule cond_encs concl_enc
        in Inr (encoded_rule, kb\<lparr>rules := rules kb @ [encoded_rule]\<rparr>))"

section \<open>The reasoning engine\<close>

text \<open>
  The result dictionary of \<open>deduce\<close> is a record; \<open>equation\<close> is \<open>None\<close> where the key is
  absent.
\<close>

record DeduceResult =
  result :: bool
  explanation :: string
  equation :: "string option"

fun join :: "string \<Rightarrow> string list \<Rightarrow> string" where
  "join sep [] = []"
| "join sep [x] = x"
| "join sep (x # y # ys) = x @ sep @ join sep (y # ys)"

definition subseteq_sym :: string where
  "subseteq_sym = [CHR 0xE2, CHR 0x8A, CHR 0x86]"

definition in_sym :: string where
  "in_sym = [CHR 0xE2, CHR 0x88, CHR 0x88]"

definition forall_sym :: string where
  "forall_sym = [CHR 0xE2, CHR 0x88, CHR 0x80]"

definition decode_fact :: "ExponentMap \<Rightarrow> KnowledgeBase \<Rightarrow> Fact option" where
  "decode_fact enc kb =
     (let ps = concat (map (\<lambda>(p, e). if p = sign_prime (encoder kb) then [] else replicate (nat e) p) enc)
      in case ps of
           [s, pred, ob] \<Rightarrow>
             (case (map_of (prime_to_concept (encoder kb)) s,
                    map_of (prime_to_concept (encoder kb)) pred,
                    map_of (prime_to_concept (encoder kb)) ob) of
                (Some sub, Some prd, Some obj) \<Rightarrow>
                  if sub \<noteq> [] \<and> prd \<noteq> [] \<and> obj \<noteq> []
                  then Some \<lparr>subject = sub, predicate = prd, object = obj\<rparr> else None
              | _ \<Rightarrow> None)
         | _ \<Rightarrow> None)"

text \<open>
  \<open>_universal_chain\<close> and \<open>_deduce\<close> are recursive, and their recursion is bounded by
  nothing but the interpreter's stack. The first argument of \<open>universal_chain\<close>,
  \<open>deduce_rec\<close> and \<open>deduce\<close> is the number of nested calls of these two functions the
  interpreter still allows (CPython: 1000 frames by default, less those in use); entering a
  call with none left raises \<open>RecursionError\<close>. The calls of the non-recursive helpers are
  taken to fit. Inside \<open>_deduce\<close> the chain search runs under \<open>except Exception: pass\<close>, so
  a \<open>RecursionError\<close> of the search is dropped there and the knowledge base goes on as the
  search left it; that is why a chain search returns its state with an error too. The
  recursive calls of \<open>_deduce\<close> are outside that \<open>try\<close>, and their errors propagate.

  The loops over rules and facts are the functions \<open>chain_rules\<close>, \<open>uc_rules\<close>,
  \<open>check_conditions\<close>, \<open>std_rules\<close> and \<open>trans_facts\<close>; each takes the recursive call as its
  first argument. The set of visited keys is threaded like the knowledge base.
\<close>

type_synonym chain_run = "(error + string list option) \<times> KnowledgeBase \<times> string set"

fun chain_rules ::
  "(KnowledgeBase \<Rightarrow> string \<Rightarrow> string \<Rightarrow> string set \<Rightarrow> chain_run) \<Rightarrow>
   EncodedRule list \<Rightarrow> string \<Rightarrow> int \<Rightarrow> string \<Rightarrow> KnowledgeBase \<Rightarrow> string set \<Rightarrow> chain_run" where
  "chain_rules rec [] subj subj_prime target kb visited = (Inr None, kb, visited)"
| "chain_rules rec (StdRule cond_encs concl_enc # rs) subj subj_prime target kb visited =
     chain_rules rec rs subj subj_prime target kb visited"
| "chain_rules rec (UCRule kind cat_p prop_p pred_p cond_enc concl_enc # rs) subj subj_prime target kb visited =
     (if kind \<noteq> Universal then chain_rules rec rs subj subj_prime target kb visited
      else if cat_p \<noteq> subj_prime then chain_rules rec rs subj subj_prime target kb visited
      else case map_of (prime_to_concept (encoder kb)) prop_p of
             None \<Rightarrow> chain_rules rec rs subj subj_prime target kb visited
           | Some prop_name \<Rightarrow>
               if prop_name = [] then chain_rules rec rs subj subj_prime target kb visited
               else (case rec kb prop_name target visited of
                       (Inl err, kb, visited) \<Rightarrow> (Inl err, kb, visited)
                     | (Inr (Some chain), kb, visited) \<Rightarrow>
                         if chain \<noteq> [] then (Inr (Some (subj # chain)), kb, visited)
                         else chain_rules rec rs subj subj_prime target kb visited
                     | (Inr None, kb, visited) \<Rightarrow>
                         chain_rules rec rs subj subj_prime target kb visited))"

fun universal_chain :: "nat \<Rightarrow> KnowledgeBase \<Rightarrow> string \<Rightarrow> string \<Rightarrow> string set \<Rightarrow> chain_run" where
  "universal_chain 0 kb subj target visited = (Inl RecursionError, kb, visited)"
| "universal_chain (Suc depth) kb subj target visited =
     (if subj = target then (Inr (Some [subj]), kb, visited)
      else if subj \<in> visited then (Inr None, kb, visited)
      else
        let visited = insert subj visited;
            (subj_prime, kb) = kb_get_prime subj kb
        in chain_rules (universal_chain depth) (rules kb) subj subj_prime target kb visited)"


type_synonym deduce_run = "error + DeduceResult \<times> KnowledgeBase \<times> string set"
type_synonym loop_run = "error + DeduceResult option \<times> KnowledgeBase \<times> string set"

fun find_direct :: "(ExponentMap \<times> Fact) list \<Rightarrow> ExponentMap \<Rightarrow> Fact option" where
  "find_direct [] q_enc = None"
| "find_direct ((fact_enc, fct) # fs) q_enc =
     (if dict_eq fact_enc q_enc then Some fct else find_direct fs q_enc)"

fun uc_rules ::
  "(KnowledgeBase \<Rightarrow> Fact \<Rightarrow> string set \<Rightarrow> deduce_run) \<Rightarrow>
   EncodedRule list \<Rightarrow> Fact \<Rightarrow> KnowledgeBase \<Rightarrow> string set \<Rightarrow> loop_run" where
  "uc_rules rec [] query kb visited = Inr (None, kb, visited)"
| "uc_rules rec (StdRule cond_encs concl_enc # rs) query kb visited =
     uc_rules rec rs query kb visited"
| "uc_rules rec (UCRule kind cat_p prop_p pred_p cond_enc concl_enc # rs) query kb visited =
     (if predicate query = (if kind = Universal then ''is'' else ''can'') then
        let (obj_p, kb) = kb_get_prime (object query) kb in
        if obj_p = prop_p then
          (case map_of (prime_to_concept (encoder kb)) cat_p of
             None \<Rightarrow> Inl KeyError
           | Some cat_name \<Rightarrow>
              let membership = \<lparr>subject = subject query, predicate = ''is'', object = cat_name\<rparr> in
              (case rec kb membership visited of
                 Inl err \<Rightarrow> Inl err
               | Inr (sub_res, kb, visited) \<Rightarrow>
                  if result sub_res then
                    let clause = (if kind = Universal then ''are'' else ''can'');
                        fresh = (if kind = Universal
                                 then subject query @ '' '' @ in_sym @ '' '' @ object membership
                                      @ '' '' @ subseteq_sym @ '' '' @ object query
                                 else forall_sym @ ''x'' @ in_sym @ object membership
                                      @ '': x can '' @ object query);
                        eq_form = (case equation sub_res of
                                     None \<Rightarrow> fresh
                                   | Some eq \<Rightarrow>
                                       if eq \<noteq> [] then eq @ '' '' @ subseteq_sym @ '' '' @ object query
                                       else fresh)
                    in (case map_of (prime_to_concept (encoder kb)) cat_p of
                          None \<Rightarrow> Inl KeyError
                        | Some cat_name \<Rightarrow>
                            Inr (Some \<lparr>result = True,
                                       explanation = explanation sub_res @ '', and all '' @ cat_name
                                                     @ '' '' @ clause @ '' '' @ object query,
                                       equation = Some eq_form\<rparr>, kb, visited))
                  else uc_rules rec rs query kb visited))
        else uc_rules rec rs query kb visited
      else uc_rules rec rs query kb visited)"

fun check_conditions ::
  "(KnowledgeBase \<Rightarrow> Fact \<Rightarrow> string set \<Rightarrow> deduce_run) \<Rightarrow>
   ExponentMap list \<Rightarrow> string list \<Rightarrow> KnowledgeBase \<Rightarrow> string set \<Rightarrow>
   error + string list option \<times> KnowledgeBase \<times> string set" where
  "check_conditions rec [] explanations kb visited = Inr (Some explanations, kb, visited)"
| "check_conditions rec (cond_enc # cs) explanations kb visited =
     (case decode_fact cond_enc kb of
        None \<Rightarrow> Inr (None, kb, visited)
      | Some cond_fact \<Rightarrow>
         (case rec kb cond_fact visited of
            Inl err \<Rightarrow> Inl err
          | Inr (sub_res, kb, visited) \<Rightarrow>
             if \<not> result sub_res then Inr (None, kb, visited)
             else check_conditions rec cs (explanations @ [explanation sub_res]) kb visited))"

fun std_rules ::
  "(KnowledgeBase \<Rightarrow> Fact \<Rightarrow> string set \<Rightarrow> deduce_run) \<Rightarrow>
   EncodedRule list \<Rightarrow> ExponentMap \<Rightarrow> Fact \<Rightarrow> KnowledgeBase \<Rightarrow> string set \<Rightarrow> loop_run" where
  "std_rules rec [] q_enc query kb visited = Inr (None, kb, visited)"
| "std_rules rec (UCRule kind cat_p prop_p pred_p cond_enc concl_enc # rs) q_enc query kb visited =
     std_rules rec rs q_enc query kb visited"
| "std_rules rec (StdRule cond_encs concl_enc # rs) q_enc query kb visited =
     (if dict_eq concl_enc q_enc then
        (case check_conditions rec cond_encs [] kb visited of
           Inl err \<Rightarrow> Inl err
         | Inr (Some explanations, kb, visited) \<Rightarrow>
             Inr (Some \<lparr>result = True,
                        explanation = join '', '' explanations @ '', which implies ''
                                      @ str_fact query,
                        equation = None\<rparr>, kb, visited)
         | Inr (None, kb, visited) \<Rightarrow> std_rules rec rs q_enc query kb visited)
      else std_rules rec rs q_enc query kb visited)"

fun trans_facts ::
  "(KnowledgeBase \<Rightarrow> Fact \<Rightarrow> string set \<Rightarrow> deduce_run) \<Rightarrow>
   (ExponentMap \<times> Fact) list \<Rightarrow> Fact \<Rightarrow> KnowledgeBase \<Rightarrow> string set \<Rightarrow> loop_run" where
  "trans_facts rec [] query kb visited = Inr (None, kb, visited)"
| "trans_facts rec ((fact_enc, fct) # fs) query kb visited =
     (if subject fct = subject query \<and> predicate fct = predicate query then
        let intermediate = \<lparr>subject = object fct, predicate = predicate query, object = object query\<rparr> in
        (case rec kb intermediate visited of
           Inl err \<Rightarrow> Inl err
         | Inr (sub_res, kb, visited) \<Rightarrow>
            if result sub_res then
              Inr (Some \<lparr>result = True,
                         explanation = subject query @ '' '' @ predicate query @ '' ''
                                       @ object fct @ '', and '' @ explanation sub_res,
                         equation = None\<rparr>, kb, visited)
            else trans_facts rec fs query kb visited)
      else trans_facts rec fs query kb visited)"

definition chain_result :: "string list \<Rightarrow> DeduceResult" where
  "chain_result chain =
     \<lparr>result = True,
      explanation = join '', and '' (map (\<lambda>i. chain ! i @ '' are '' @ chain ! (i + 1)) [0..<length chain - 1]),
      equation = Some (join ('' '' @ subseteq_sym @ '' '') chain)\<rparr>"

definition deduce_steps ::
  "(KnowledgeBase \<Rightarrow> Fact \<Rightarrow> string set \<Rightarrow> deduce_run) \<Rightarrow>
   Fact \<Rightarrow> KnowledgeBase \<Rightarrow> string set \<Rightarrow> deduce_run" where
  "deduce_steps rec query kb visited =
     (let (q_enc, kb) = encode_fact query kb in
      case find_direct (zip (fact_encodings kb) (facts kb)) q_enc of
        Some fct \<Rightarrow>
          Inr (\<lparr>result = True,
                explanation = ''Direct fact in knowledge base: '' @ str_fact fct,
                equation = None\<rparr>, kb, visited)
      | None \<Rightarrow>
         (case uc_rules rec (rules kb) query kb visited of
            Inl err \<Rightarrow> Inl err
          | Inr (Some res, kb, visited) \<Rightarrow> Inr (res, kb, visited)
          | Inr (None, kb, visited) \<Rightarrow>
             (case std_rules rec (rules kb) q_enc query kb visited of
                Inl err \<Rightarrow> Inl err
              | Inr (Some res, kb, visited) \<Rightarrow> Inr (res, kb, visited)
              | Inr (None, kb, visited) \<Rightarrow>
                 (case (if predicate query = ''is'' \<or> predicate query = ''part of''
                        then trans_facts rec (zip (fact_encodings kb) (facts kb)) query kb visited
                        else Inr (None, kb, visited)) of
                    Inl err \<Rightarrow> Inl err
                  | Inr (Some res, kb, visited) \<Rightarrow> Inr (res, kb, visited)
                  | Inr (None, kb, visited) \<Rightarrow>
                      Inr (\<lparr>result = False,
                            explanation = ''Could not deduce: '' @ str_fact query,
                            equation = None\<rparr>, kb, visited)))))"

fun deduce_rec :: "nat \<Rightarrow> KnowledgeBase \<Rightarrow> Fact \<Rightarrow> string set \<Rightarrow> deduce_run" where
  "deduce_rec 0 kb query visited = Inl RecursionError"
| "deduce_rec (Suc depth) kb query visited =
     (let key = str_fact query in
      if key \<in> visited then
        Inr (\<lparr>result = False, explanation = ''Circular reasoning detected: '' @ key,
              equation = None\<rparr>, kb, visited)
      else
        let visited = insert key visited in
        if predicate query = ''is'' \<and> subject query = object query then
          Inr (\<lparr>result = True, explanation = subject query @ '' is itself by definition'',
                equation = None\<rparr>, kb, visited)
        else
          (case (if predicate query = ''is''
                 then universal_chain depth kb (subject query) (object query) {}
                 else (Inr None, kb, {})) of
             (Inl err, kb, chain_visited) \<Rightarrow> deduce_steps (deduce_rec depth) query kb visited
           | (Inr None, kb, chain_visited) \<Rightarrow> deduce_steps (deduce_rec depth) query kb visited
           | (Inr (Some chain), kb, chain_visited) \<Rightarrow>
               if chain \<noteq> [] then Inr (chain_result chain, kb, visited)
               else deduce_steps (deduce_rec depth) query kb visited))"

definition deduce :: "nat \<Rightarrow> KnowledgeBase \<Rightarrow> Fact \<Rightarrow> error + DeduceResult \<times> KnowledgeBase" where
  "deduce depth kb query =
     (case deduce_rec depth kb query {} of
        Inl err \<Rightarrow> Inl err
      | Inr (res, kb, visited) \<Rightarrow> Inr (res, kb))"

section \<open>Evaluation setup\<close>

text \<open>
  Concrete inputs are evaluated with the code equations. The loop \<open>divide_out\<close> may
  diverge, so its recursion equation is registered by hand; the initial generator
  \<open>PrimeGenerator(1000)\<close> is replaced by the list of primes the sieve was proved to
  produce (\<open>PrimeGenerator_init_1000\<close>).
\<close>

declare divide_out.simps [code]

lemma PrimeGenerator_init_code [code]:
  "PrimeGenerator_init n =
     (if n = 1000 then \<lparr>primes = primes_upto_1000, sieve_limit = 1000\<rparr>
      else generate_up_to n \<lparr>primes = [], sieve_limit = 0\<rparr>)"
  by (simp add: PrimeGenerator_init_1000) (simp add: PrimeGenerator_init_def)

lemma PrimeEncoder_init_eval:
  "PrimeEncoder_init =
     \<lparr>prime_gen = \<lparr>primes = primes_upto_1000, sieve_limit = 1000\<rparr>,
      concept_to_prime = [(''_sign'', 2)], prime_to_concept = [(2, ''_sign'')],
      next_index = 1, sign_prime = 2\<rparr>"
  by code_simp

section \<open>Dictionaries\<close>

lemma dict_get_set: "dict_get (dict_set k v d) q dflt = (if q = k then v else dict_get d q dflt)"
  by (simp add: dict_get_def dict_set_def update_conv')

lemma dict_get_del: "dict_get (dict_del k d) q dflt = (if q = k then dflt else dict_get d q dflt)"
  by (simp add: dict_get_def dict_del_def delete_conv')

definition deficit :: "int \<Rightarrow> ExponentMap \<Rightarrow> ExponentMap \<Rightarrow> bool" where
  "deficit sp a b = (\<exists>p x. (p, x) \<in> set b \<and> p \<noteq> sp \<and> dict_get a p 0 < x)"

lemma deficit_Nil: "\<not> deficit sp a []"
  by (simp add: deficit_def)

lemma deficit_Cons:
  "deficit sp a ((p, x) # b) = ((p \<noteq> sp \<and> dict_get a p 0 < x) \<or> deficit sp a b)"
  unfolding deficit_def by auto

lemma deficit_cong:
  "(\<And>q x. (q, x) \<in> set b \<Longrightarrow> q \<noteq> sp \<Longrightarrow> dict_get a q 0 = dict_get a' q 0) \<Longrightarrow>
   deficit sp a b = deficit sp a' b"
  unfolding deficit_def by metis

lemma divide_loop_fails_iff:
  "distinct (map fst items) \<Longrightarrow>
   (divide_loop sp items res = Inl (ValueError ''Division results in non-integer.'')) =
     deficit sp res items"
proof (induction items arbitrary: res)
  case Nil
  then show ?case by (simp add: deficit_Nil)
next
  case (Cons item items)
  obtain p e where item: "item = (p, e)" by (cases item)
  have dist: "distinct (map fst items)" and notin: "p \<notin> fst ` set items"
    using Cons.prems item by auto
  show ?case
  proof (cases "p = sp")
    case True
    let ?r = "dict_set sp (dict_get res sp 0 - e) res"
    have "divide_loop sp (item # items) res = divide_loop sp items ?r"
      using True item by simp
    moreover have "deficit sp ?r items = deficit sp res items"
      by (rule deficit_cong) (simp add: dict_get_set)
    moreover have "deficit sp res (item # items) = deficit sp res items"
      using True item by (simp add: deficit_Cons)
    ultimately show ?thesis using Cons.IH [OF dist, of ?r] by simp
  next
    case False
    show ?thesis
    proof (cases "dict_get res p 0 < e")
      case True
      then show ?thesis using False item by (simp add: deficit_Cons)
    next
      case ge: False
      let ?r1 = "dict_set p (dict_get res p 0 - e) res"
      let ?r2 = "if dict_get ?r1 p 0 = 0 then dict_del p ?r1 else ?r1"
      have "divide_loop sp (item # items) res = divide_loop sp items ?r2"
        using False ge item by (simp add: Let_def)
      moreover have "deficit sp ?r2 items = deficit sp res items"
      proof (rule deficit_cong)
        fix q x assume "(q, x) \<in> set items"
        then have "q \<noteq> p" using notin by force
        then show "dict_get ?r2 q 0 = dict_get res q 0"
          by (simp add: dict_get_set dict_get_del)
      qed
      moreover have "deficit sp res (item # items) = deficit sp res items"
        using False ge item by (simp add: deficit_Cons)
      ultimately show ?thesis using Cons.IH [OF dist, of ?r2] by simp
    qed
  qed
qed

lemma divide_loop_cases:
  "divide_loop sp items res = Inl (ValueError ''Division results in non-integer.'') \<or>
   (\<exists>m. divide_loop sp items res = Inr m)"
proof (induction items arbitrary: res)
  case Nil
  then show ?case by simp
next
  case (Cons item items)
  obtain p e where item: "item = (p, e)" by (cases item)
  show ?case unfolding item divide_loop.simps Let_def
    using Cons.IH by (simp only: split: if_split) blast
qed

section \<open>Division in the encoded domain\<close>

text \<open>
  Claim C5. \<open>divide(a, b)\<close> raises the "not divisible" error exactly when some entry of
  \<open>b\<close> whose prime is not the sign prime has an exponent larger than the exponent of that
  prime in \<open>a\<close> (0 when absent); otherwise it returns a map. In particular an entry of the
  sign prime never raises. \<open>b\<close> is a dictionary: its keys are distinct.
\<close>

theorem divide_not_divisible_iff:
  assumes "distinct (map fst b)"
  shows "((divide_enc e a b = Inl (ValueError ''Division results in non-integer.''))
            = (\<exists>p x. (p, x) \<in> set b \<and> p \<noteq> sign_prime e \<and> dict_get a p 0 < x)) \<and>
         ((\<exists>m. divide_enc e a b = Inr m)
            = (\<not> (\<exists>p x. (p, x) \<in> set b \<and> p \<noteq> sign_prime e \<and> dict_get a p 0 < x)))"
proof -
  have 1: "(divide_enc e a b = Inl (ValueError ''Division results in non-integer.''))
             = deficit (sign_prime e) a b"
    unfolding divide_enc_def by (rule divide_loop_fails_iff [OF assms])
  have 2: "divide_enc e a b = Inl (ValueError ''Division results in non-integer.'') \<or>
           (\<exists>m. divide_enc e a b = Inr m)"
    unfolding divide_enc_def by (rule divide_loop_cases)
  have 3: "(\<exists>m. divide_enc e a b = Inr m) = (\<not> deficit (sign_prime e) a b)"
    using 1 2 by auto
  show ?thesis using 1 3 unfolding deficit_def by simp
qed

theorem divide_not_divisible_iff_witness:
  "distinct (map fst [(2 :: int, 5 :: int), (3, 2)]) \<and>
   divide_enc PrimeEncoder_init [(3, 1)] [(2, 5), (3, 2)]
     = Inl (ValueError ''Division results in non-integer.'') \<and>
   (\<exists>p x. (p, x) \<in> set [(2, 5), (3, 2)] \<and> p \<noteq> sign_prime PrimeEncoder_init
      \<and> dict_get [(3 :: int, 1 :: int)] p 0 < x) \<and>
   divide_enc PrimeEncoder_init [(3, 2)] [(2, 5), (3, 1)] = Inr [(3, 1), (2, - 5)]"
proof -
  have d: "distinct (map fst [(2 :: int, 5 :: int), (3, 2)])" by simp
  have ev: "divide_enc PrimeEncoder_init [(3, 1)] [(2, 5), (3, 2)]
              = Inl (ValueError ''Division results in non-integer.'')"
    by code_simp
  have ev2: "divide_enc PrimeEncoder_init [(3, 2)] [(2, 5), (3, 1)] = Inr [(3, 1), (2, - 5)]"
    by code_simp
  show ?thesis
    using divide_not_divisible_iff [OF d, of PrimeEncoder_init "[(3, 1)]"] d ev ev2 by blast
qed

text \<open>
  Claim C8. The maps returned by \<open>encode_integer\<close>, \<open>multiply\<close> and \<open>divide\<close> store
  no zero exponent. This fails for \<open>divide\<close> at the sign prime: that branch subtracts
  and continues without the deletion the branch for the other primes performs. With the sign
  prime 2 of a fresh encoder, dividing \<open>{2: 1}\<close> by \<open>{2: 1}\<close> returns \<open>{2: 0}\<close>.
\<close>

theorem divide_keeps_zero_sign_exponent:
  "divide_enc PrimeEncoder_init [(2, 1)] [(2, 1)] = Inr [(2, 0)]"
  by code_simp

section \<open>Integer encoding on a fresh encoder\<close>

text \<open>
  The sign prime of a fresh encoder is the first prime handed out, 2, which is also a factor
  of every even integer.
\<close>

lemma sign_prime_fresh: "sign_prime PrimeEncoder_init = 2"
  by code_simp

text \<open>
  Claim C1. Decoding the encoding of a non-zero integer restores it. On a fresh encoder
  this fails at \<open>n = 2\<close>: the factor 2 is stored under the sign prime, and decoding reads
  it as a sign, giving \<open>-1\<close>.
\<close>

theorem round_trip_fails_at_2:
  "encode_integer PrimeEncoder_init 2 = Some (Inr ([(2, 1)], PrimeEncoder_init)) \<and>
   decode_integer PrimeEncoder_init [(2, 1)] = Inr (PyInt (- 1))"
  by code_simp

text \<open>
  Claim C6. \<open>encode_integer\<close> raises exactly for 0, and for a negative integer stores the
  sign prime with exponent 1. The second part fails at \<open>n = -2\<close> on a fresh encoder: the
  sign entry is set to 1, trial division stops at once (\<open>2 * 2 > 2\<close>), and the remainder 2
  of \<open>|n|\<close> is stored under the same key, whose exponent becomes 2.
\<close>

theorem encode_minus_2_sign_exponent:
  "encode_integer PrimeEncoder_init (- 2) = Some (Inr ([(2, 2)], PrimeEncoder_init))"
  by code_simp

text \<open>
  Claim C7. Every key of an encoding other than the sign prime is a prime number. On a
  fresh encoder trial division only runs over the primes already handed out to concepts
  (only 2), so the remainder 9 is stored as a key although it is \<open>3 * 3\<close>.
\<close>

theorem encode_9_composite_key:
  "encode_integer PrimeEncoder_init 9 = Some (Inr ([(9, 1)], PrimeEncoder_init)) \<and>
   \<not> is_prime 9"
  by code_simp

section \<open>The identity axiom\<close>

text \<open>
  Claim C4. For every knowledge base, also an empty one, and every name \<open>x\<close>,
  \<open>deduce(kb, x is x)\<close> is entailed with the explanation "x is itself by definition";
  nothing is encoded and the knowledge base is unchanged. (The first argument is the number
  of nested calls the interpreter allows; one is enough.)
\<close>

theorem deduce_identity:
  "deduce (Suc depth) kb \<lparr>subject = x, predicate = ''is'', object = x\<rparr> =
     Inr (\<lparr>result = True, explanation = x @ '' is itself by definition'',
           equation = None\<rparr>, kb)"
  by (simp add: deduce_def str_fact_def)

section \<open>The registry only grows\<close>

lemma get_prime_known:
  "map_of (concept_to_prime e) (lower c) = Some p \<Longrightarrow> get_prime c e = (p, e)"
  by (simp add: get_prime_def)

lemma get_prime_new:
  "map_of (concept_to_prime e) (lower c) = None \<Longrightarrow> get_prime c e = assign_prime (lower c) e"
  by (simp add: get_prime_def)

lemma assign_prime_eq:
  "assign_prime k e =
     (fst (get (next_index e) (prime_gen e)),
      e\<lparr>prime_gen := snd (get (next_index e) (prime_gen e)),
        next_index := next_index e + 1,
        concept_to_prime := dict_set k (fst (get (next_index e) (prime_gen e))) (concept_to_prime e),
        prime_to_concept := dict_set (fst (get (next_index e) (prime_gen e))) k (prime_to_concept e)\<rparr>)"
  by (simp add: assign_prime_def case_prod_beta)

lemma kb_get_prime_eq:
  "kb_get_prime c kb = (fst (get_prime c (encoder kb)), kb\<lparr>encoder := snd (get_prime c (encoder kb))\<rparr>)"
  by (simp add: kb_get_prime_def case_prod_beta)

lemma set_dict_set: "set (dict_set k v d) \<subseteq> insert (k, v) (set d)"
  unfolding dict_set_def by (induction d) auto

lemma map_of_dict_set: "map_of (dict_set k v d) = (map_of d)(k \<mapsto> v)"
  by (simp add: dict_set_def update_conv')

lemma get_prime_sign: "sign_prime (snd (get_prime c e)) = sign_prime e"
  by (cases "map_of (concept_to_prime e) (lower c)")
     (simp_all add: get_prime_known get_prime_new assign_prime_eq)

lemma get_prime_p2c_names:
  "snd ` set (prime_to_concept (snd (get_prime c e)))
     \<subseteq> insert (lower c) (snd ` set (prime_to_concept e))"
proof (cases "map_of (concept_to_prime e) (lower c)")
  case None
  show ?thesis
    using set_dict_set [of "fst (get (next_index e) (prime_gen e))" "lower c" "prime_to_concept e"]
    by (auto simp: get_prime_new [OF None] assign_prime_eq)
next
  case (Some p)
  then show ?thesis by (auto simp: get_prime_known)
qed

lemma get_prime_c2p:
  "map_of (concept_to_prime (snd (get_prime c e))) (lower c) = Some (fst (get_prime c e)) \<and>
   map_of (concept_to_prime e) \<subseteq>\<^sub>m map_of (concept_to_prime (snd (get_prime c e)))"
proof (cases "map_of (concept_to_prime e) (lower c)")
  case None
  then show ?thesis
    by (auto simp: get_prime_new assign_prime_eq map_of_dict_set map_le_def dom_def)
next
  case (Some p)
  then show ?thesis by (simp add: get_prime_known)
qed

definition same_store :: "KnowledgeBase \<Rightarrow> KnowledgeBase \<Rightarrow> bool" where
  "same_store kb kb' =
     (facts kb' = facts kb \<and> fact_encodings kb' = fact_encodings kb \<and> rules kb' = rules kb)"

inductive reach :: "string set \<Rightarrow> KnowledgeBase \<Rightarrow> KnowledgeBase \<Rightarrow> bool" for N :: "string set" where
  reach_refl: "reach N kb kb"
| reach_step: "reach N kb kb' \<Longrightarrow> c \<in> N \<Longrightarrow> reach N kb (snd (kb_get_prime c kb'))"

lemma reach_trans: "reach N kb1 kb2 \<Longrightarrow> reach N kb kb1 \<Longrightarrow> reach N kb kb2"
  by (induction rule: reach.induct) (auto intro: reach.intros)

lemma reach_one: "c \<in> N \<Longrightarrow> reach N kb (snd (kb_get_prime c kb))"
  by (rule reach_step [OF reach_refl])

lemma reach_same_store: "reach N kb kb' \<Longrightarrow> same_store kb kb'"
  by (induction rule: reach.induct) (auto simp: same_store_def kb_get_prime_eq)

lemma reach_sign_prime: "reach N kb kb' \<Longrightarrow> sign_prime (encoder kb') = sign_prime (encoder kb)"
  by (induction rule: reach.induct) (auto simp: kb_get_prime_eq get_prime_sign)

lemma reach_c2p:
  "reach N kb kb' \<Longrightarrow>
   map_of (concept_to_prime (encoder kb)) \<subseteq>\<^sub>m map_of (concept_to_prime (encoder kb'))"
proof (induction rule: reach.induct)
  case (reach_refl kb)
  then show ?case by simp
next
  case (reach_step kb kb' c)
  have "map_of (concept_to_prime (encoder kb'))
          \<subseteq>\<^sub>m map_of (concept_to_prime (encoder (snd (kb_get_prime c kb'))))"
    using get_prime_c2p [of c "encoder kb'"] by (simp add: kb_get_prime_eq)
  then show ?case using reach_step.IH by (rule map_le_trans [rotated])
qed

definition p2c_names :: "KnowledgeBase \<Rightarrow> string set" where
  "p2c_names kb = snd ` set (prime_to_concept (encoder kb))"

definition names_ok :: "string set \<Rightarrow> KnowledgeBase \<Rightarrow> bool" where
  "names_ok N kb = (lower ` N \<subseteq> N \<and> p2c_names kb \<subseteq> N \<and> ''is'' \<in> N \<and> object ` set (facts kb) \<subseteq> N)"

definition fact_in :: "string set \<Rightarrow> Fact \<Rightarrow> bool" where
  "fact_in N q = (subject q \<in> N \<and> predicate q \<in> N \<and> object q \<in> N)"

lemma reach_names_ok: "reach N kb kb' \<Longrightarrow> names_ok N kb \<Longrightarrow> names_ok N kb'"
proof (induction rule: reach.induct)
  case (reach_refl kb)
  then show ?case by simp
next
  case (reach_step kb kb' c)
  have ok: "names_ok N kb'" using reach_step by simp
  have "p2c_names (snd (kb_get_prime c kb')) \<subseteq> insert (lower c) (p2c_names kb')"
    using get_prime_p2c_names [of c "encoder kb'"] by (simp add: p2c_names_def kb_get_prime_eq)
  moreover have "lower c \<in> N" using ok reach_step.hyps(2) by (auto simp: names_ok_def)
  ultimately have "p2c_names (snd (kb_get_prime c kb')) \<subseteq> N"
    using ok by (auto simp: names_ok_def)
  then show ?case using ok by (simp add: names_ok_def kb_get_prime_eq)
qed

lemma encode_fact_eq:
  "snd (encode_fact q kb)
     = snd (kb_get_prime (object q) (snd (kb_get_prime (predicate q) (snd (kb_get_prime (subject q) kb)))))"
  by (simp add: encode_fact_def encode_symbol_def kb_get_prime_eq case_prod_beta)

lemma encode_fact_reach: "fact_in N q \<Longrightarrow> reach N kb (snd (encode_fact q kb))"
  unfolding encode_fact_eq fact_in_def by (intro reach_step reach_refl) auto

definition post :: "string set \<Rightarrow> string set \<Rightarrow> KnowledgeBase \<Rightarrow> string set \<Rightarrow> KnowledgeBase \<Rightarrow> string set \<Rightarrow> bool" where
  "post N K kb v kb' v' = (reach N kb kb' \<and> v \<subseteq> v' \<and> v' \<subseteq> v \<union> K)"

lemma post_refl: "post N K kb v kb v"
  by (simp add: post_def reach_refl)

lemma post_trans: "post N K kb v kb1 v1 \<Longrightarrow> post N K kb1 v1 kb2 v2 \<Longrightarrow> post N K kb v kb2 v2"
  unfolding post_def using reach_trans by blast

lemma post_names_ok: "post N K kb v kb' v' \<Longrightarrow> names_ok N kb \<Longrightarrow> names_ok N kb'"
  unfolding post_def using reach_names_ok by blast

lemma post_reach: "reach N kb kb' \<Longrightarrow> post N K kb v kb' v"
  by (simp add: post_def)

lemma p2c_lookup_in: "names_ok N kb \<Longrightarrow> map_of (prime_to_concept (encoder kb)) p = Some x \<Longrightarrow> x \<in> N"
  unfolding names_ok_def p2c_names_def by (metis image_eqI map_of_SomeD snd_conv subsetD)

section \<open>What a chain search and a deduction change\<close>

lemma chain_rules_post:
  assumes rec: "\<And>kb s v c kb' v'. names_ok N kb \<Longrightarrow> s \<in> N \<Longrightarrow>
                  rec kb s target v = (c, kb', v') \<Longrightarrow> post N N kb v kb' v'"
  shows "names_ok N kb \<Longrightarrow> chain_rules rec rs subj sp target kb v = (c, kb', v') \<Longrightarrow>
         post N N kb v kb' v'"
proof (induction rs arbitrary: kb v)
  case Nil
  then show ?case by (simp add: post_refl)
next
  case (Cons r rs)
  show ?case
  proof (cases r)
    case (StdRule ces cc)
    then show ?thesis using Cons by simp
  next
    case (UCRule kind cat prp pred ce cc)
    show ?thesis
    proof (cases "kind = Universal \<and> cat = sp \<and>
                  (\<exists>x. map_of (prime_to_concept (encoder kb)) prp = Some x \<and> x \<noteq> [])")
      case False
      then have "chain_rules rec (r # rs) subj sp target kb v = chain_rules rec rs subj sp target kb v"
        using UCRule by (auto split: option.splits)
      then show ?thesis using Cons by simp
    next
      case True
      then obtain x where x: "kind = Universal" "cat = sp"
        "map_of (prime_to_concept (encoder kb)) prp = Some x" "x \<noteq> []" by blast
      have xN: "x \<in> N" using p2c_lookup_in [OF Cons.prems(1) x(3)] .
      obtain co kb1 v1 where r1: "rec kb x target v = (co, kb1, v1)"
        by (cases "rec kb x target v") auto
      have p1: "post N N kb v kb1 v1" using rec [OF Cons.prems(1) xN r1] .
      have ok1: "names_ok N kb1" using post_names_ok [OF p1 Cons.prems(1)] .
      show ?thesis
      proof (cases "(\<exists>err. co = Inl err) \<or> (\<exists>ch. co = Inr (Some ch) \<and> ch \<noteq> [])")
        case True
        then have "kb' = kb1 \<and> v' = v1" using Cons.prems(2) UCRule x r1 by auto
        then show ?thesis using p1 by simp
      next
        case False
        then have "chain_rules rec rs subj sp target kb1 v1 = (c, kb', v')"
          using Cons.prems(2) UCRule x r1 by (auto split: option.splits sum.splits if_splits)
        then have "post N N kb1 v1 kb' v'" using Cons.IH ok1 by simp
        then show ?thesis using p1 post_trans by blast
      qed
    qed
  qed
qed

lemma universal_chain_post:
  "names_ok N kb \<Longrightarrow> subj \<in> N \<Longrightarrow>
   universal_chain n kb subj target v = (c, kb', v') \<Longrightarrow> post N N kb v kb' v'"
proof (induction n arbitrary: kb subj v c kb' v')
  case 0
  then show ?case by (simp add: post_refl)
next
  case (Suc n)
  show ?case
  proof (cases "subj = target \<or> subj \<in> v")
    case True
    then have "kb' = kb \<and> v' = v" using Suc.prems(3) by (auto split: if_splits)
    then show ?thesis by (simp add: post_refl)
  next
    case False
    let ?kb1 = "snd (kb_get_prime subj kb)"
    let ?sp = "fst (kb_get_prime subj kb)"
    have run: "chain_rules (universal_chain n) (rules ?kb1) subj ?sp target ?kb1 (insert subj v)
                 = (c, kb', v')"
      using Suc.prems(3) False by (simp add: case_prod_beta)
    have r1: "reach N kb ?kb1" using Suc.prems(2) by (rule reach_one)
    have ok1: "names_ok N ?kb1" using reach_names_ok [OF r1 Suc.prems(1)] .
    have p0: "post N N kb v ?kb1 (insert subj v)"
      using r1 Suc.prems(2) by (auto simp: post_def)
    have "post N N ?kb1 (insert subj v) kb' v'"
      using chain_rules_post [where rec = "universal_chain n" and N = N, OF _ ok1 run] Suc.IH
      by blast
    then show ?thesis using p0 post_trans by blast
  qed
qed


definition keys_of :: "string set \<Rightarrow> string set" where
  "keys_of N = str_fact ` {f. fact_in N f}"

definition rec_post ::
  "string set \<Rightarrow> (KnowledgeBase \<Rightarrow> Fact \<Rightarrow> string set \<Rightarrow> deduce_run) \<Rightarrow> bool" where
  "rec_post N rec =
     (\<forall>kb q v r kb' v'. names_ok N kb \<longrightarrow> fact_in N q \<longrightarrow>
        rec kb q v = Inr (r, kb', v') \<longrightarrow> post N (keys_of N) kb v kb' v')"

lemma rec_postD:
  "rec_post N rec \<Longrightarrow> names_ok N kb \<Longrightarrow> fact_in N q \<Longrightarrow>
   rec kb q v = Inr (r, kb', v') \<Longrightarrow> post N (keys_of N) kb v kb' v'"
  unfolding rec_post_def by blast

lemma uc_rules_post:
  assumes rec: "rec_post N rec" and q: "fact_in N q"
  shows "names_ok N kb \<Longrightarrow> uc_rules rec rs q kb v = Inr (ro, kb', v') \<Longrightarrow>
         post N (keys_of N) kb v kb' v'"
proof (induction rs arbitrary: kb v)
  case Nil
  then show ?case by (simp add: post_refl)
next
  case (Cons r rs)
  show ?case
  proof (cases r)
    case (StdRule ces cc)
    then show ?thesis using Cons by simp
  next
    case (UCRule kind cat prp pred ce cc)
    show ?thesis
    proof (cases "predicate q = (if kind = Universal then ''is'' else ''can'')")
      case False
      then show ?thesis using Cons UCRule by simp
    next
      case pm: True
      let ?kb1 = "snd (kb_get_prime (object q) kb)"
      have r1: "reach N kb ?kb1" using q by (intro reach_one) (simp add: fact_in_def)
      have ok1: "names_ok N ?kb1" using reach_names_ok [OF r1 Cons.prems(1)] .
      have p1: "post N (keys_of N) kb v ?kb1 v" using r1 by (rule post_reach)
      show ?thesis
      proof (cases "fst (kb_get_prime (object q) kb) = prp")
        case False
        then have "uc_rules rec rs q ?kb1 v = Inr (ro, kb', v')"
          using Cons.prems(2) UCRule pm by (simp add: case_prod_beta)
        then have "post N (keys_of N) ?kb1 v kb' v'" using Cons.IH ok1 by simp
        then show ?thesis using p1 post_trans by blast
      next
        case om: True
        obtain cn where cn: "map_of (prime_to_concept (encoder ?kb1)) cat = Some cn"
          using Cons.prems(2) UCRule pm om
          by (cases "map_of (prime_to_concept (encoder ?kb1)) cat") (auto simp: case_prod_beta)
        let ?m = "\<lparr>subject = subject q, predicate = ''is'', object = cn\<rparr>"
        have mN: "fact_in N ?m"
          using q ok1 p2c_lookup_in [OF ok1 cn] by (simp add: fact_in_def names_ok_def)
        obtain sub kb2 v2 where r2: "rec ?kb1 ?m v = Inr (sub, kb2, v2)"
          using Cons.prems(2) UCRule pm om cn
          by (cases "rec ?kb1 ?m v") (auto simp: case_prod_beta Let_def split: sum.splits)
        have p2: "post N (keys_of N) ?kb1 v kb2 v2" using rec_postD [OF rec ok1 mN r2] .
        have ok2: "names_ok N kb2" using post_names_ok [OF p2 ok1] .
        have p12: "post N (keys_of N) kb v kb2 v2" using p1 p2 post_trans by blast
        show ?thesis
        proof (cases "result sub")
          case True
          then have "kb' = kb2 \<and> v' = v2"
            using Cons.prems(2) UCRule pm om cn r2
            by (auto simp: case_prod_beta Let_def split: option.splits)
          then show ?thesis using p12 by simp
        next
          case False
          then have "uc_rules rec rs q kb2 v2 = Inr (ro, kb', v')"
            using Cons.prems(2) UCRule pm om cn r2 by (simp add: case_prod_beta Let_def)
          then have "post N (keys_of N) kb2 v2 kb' v'" using Cons.IH ok2 by simp
          then show ?thesis using p12 post_trans by blast
        qed
      qed
    qed
  qed
qed

lemma decode_fact_in:
  "names_ok N kb \<Longrightarrow> decode_fact enc kb = Some f \<Longrightarrow> fact_in N f"
  unfolding decode_fact_def Let_def fact_in_def
  by (auto split: list.splits option.splits if_splits dest: p2c_lookup_in)

lemma check_conditions_post:
  assumes rec: "rec_post N rec"
  shows "names_ok N kb \<Longrightarrow> check_conditions rec cs ex kb v = Inr (ro, kb', v') \<Longrightarrow>
         post N (keys_of N) kb v kb' v'"
proof (induction cs arbitrary: kb v ex)
  case Nil
  then show ?case by (simp add: post_refl)
next
  case (Cons c cs)
  show ?case
  proof (cases "decode_fact c kb")
    case None
    then show ?thesis using Cons.prems(2) by (simp add: post_refl)
  next
    case (Some f)
    have fN: "fact_in N f" using decode_fact_in [OF Cons.prems(1) Some] .
    obtain sub kb2 v2 where r2: "rec kb f v = Inr (sub, kb2, v2)"
      using Cons.prems(2) Some by (cases "rec kb f v") (auto split: sum.splits)
    have p2: "post N (keys_of N) kb v kb2 v2" using rec_postD [OF rec Cons.prems(1) fN r2] .
    have ok2: "names_ok N kb2" using post_names_ok [OF p2 Cons.prems(1)] .
    show ?thesis
    proof (cases "result sub")
      case False
      then have "kb' = kb2 \<and> v' = v2" using Cons.prems(2) Some r2 by simp
      then show ?thesis using p2 by simp
    next
      case True
      then have "check_conditions rec cs (ex @ [explanation sub]) kb2 v2 = Inr (ro, kb', v')"
        using Cons.prems(2) Some r2 by simp
      then have "post N (keys_of N) kb2 v2 kb' v'" using Cons.IH ok2 by simp
      then show ?thesis using p2 post_trans by blast
    qed
  qed
qed

lemma std_rules_post:
  assumes rec: "rec_post N rec"
  shows "names_ok N kb \<Longrightarrow> std_rules rec rs qe q kb v = Inr (ro, kb', v') \<Longrightarrow>
         post N (keys_of N) kb v kb' v'"
proof (induction rs arbitrary: kb v)
  case Nil
  then show ?case by (simp add: post_refl)
next
  case (Cons r rs)
  show ?case
  proof (cases r)
    case (UCRule kind cat prp pred ce cc)
    then show ?thesis using Cons by simp
  next
    case (StdRule ces cc)
    show ?thesis
    proof (cases "dict_eq cc qe")
      case False
      then show ?thesis using Cons StdRule by simp
    next
      case True
      obtain eo kb2 v2 where r2: "check_conditions rec ces [] kb v = Inr (eo, kb2, v2)"
        using Cons.prems(2) StdRule True
        by (cases "check_conditions rec ces [] kb v") (auto split: sum.splits)
      have p2: "post N (keys_of N) kb v kb2 v2"
        using check_conditions_post [OF rec Cons.prems(1) r2] .
      have ok2: "names_ok N kb2" using post_names_ok [OF p2 Cons.prems(1)] .
      show ?thesis
      proof (cases eo)
        case (Some ex)
        then have "kb' = kb2 \<and> v' = v2" using Cons.prems(2) StdRule True r2 by simp
        then show ?thesis using p2 by simp
      next
        case None
        then have "std_rules rec rs qe q kb2 v2 = Inr (ro, kb', v')"
          using Cons.prems(2) StdRule True r2 by simp
        then have "post N (keys_of N) kb2 v2 kb' v'" using Cons.IH ok2 by simp
        then show ?thesis using p2 post_trans by blast
      qed
    qed
  qed
qed

lemma trans_facts_post:
  assumes rec: "rec_post N rec" and q: "fact_in N q"
  shows "names_ok N kb \<Longrightarrow> object ` snd ` set fs \<subseteq> N \<Longrightarrow>
         trans_facts rec fs q kb v = Inr (ro, kb', v') \<Longrightarrow>
         post N (keys_of N) kb v kb' v'"
proof (induction fs arbitrary: kb v)
  case Nil
  then show ?case by (simp add: post_refl)
next
  case (Cons item fs)
  obtain fe f where item: "item = (fe, f)" by (cases item)
  have fsN: "object ` snd ` set fs \<subseteq> N" and fN: "object f \<in> N"
    using Cons.prems(2) item by auto
  show ?case
  proof (cases "subject f = subject q \<and> predicate f = predicate q")
    case False
    then show ?thesis using Cons.IH [OF Cons.prems(1) fsN] Cons.prems(3) item by auto
  next
    case True
    let ?m = "\<lparr>subject = object f, predicate = predicate q, object = object q\<rparr>"
    have mN: "fact_in N ?m" using q fN by (simp add: fact_in_def)
    obtain sub kb2 v2 where r2: "rec kb ?m v = Inr (sub, kb2, v2)"
      using Cons.prems(3) item True by (cases "rec kb ?m v") (auto split: sum.splits)
    have p2: "post N (keys_of N) kb v kb2 v2" using rec_postD [OF rec Cons.prems(1) mN r2] .
    have ok2: "names_ok N kb2" using post_names_ok [OF p2 Cons.prems(1)] .
    show ?thesis
    proof (cases "result sub")
      case True
      then have "kb' = kb2 \<and> v' = v2" using Cons.prems(3) item \<open>subject f = subject q \<and> predicate f = predicate q\<close> r2 by simp
      then show ?thesis using p2 by simp
    next
      case False
      then have "trans_facts rec fs q kb2 v2 = Inr (ro, kb', v')"
        using Cons.prems(3) item True r2 by simp
      then have "post N (keys_of N) kb2 v2 kb' v'" using Cons.IH [OF ok2 fsN] by simp
      then show ?thesis using p2 post_trans by blast
    qed
  qed
qed


lemma zip_objects_in:
  "names_ok N kb \<Longrightarrow> object ` snd ` set (zip (fact_encodings kb) (facts kb)) \<subseteq> N"
  unfolding names_ok_def by (auto dest!: set_zip_rightD)

lemma deduce_steps_post_enc:
  assumes rec: "rec_post N rec" and q: "fact_in N q" and ok: "names_ok N kb"
    and run: "deduce_steps rec q kb v = Inr (r, kb', v')"
  shows "post N (keys_of N) (snd (encode_fact q kb)) v kb' v'"
proof -
  let ?K = "keys_of N"
  let ?kb1 = "snd (encode_fact q kb)" and ?qe = "fst (encode_fact q kb)"
  have r1: "reach N kb ?kb1" using q by (rule encode_fact_reach)
  have ok1: "names_ok N ?kb1" using reach_names_ok [OF r1 ok] .
  have p1: "post N ?K ?kb1 v ?kb1 v" by (rule post_refl)
  show ?thesis
  proof (cases "find_direct (zip (fact_encodings ?kb1) (facts ?kb1)) ?qe")
    case (Some f)
    then have "kb' = ?kb1 \<and> v' = v" using run by (simp add: deduce_steps_def case_prod_beta)
    then show ?thesis using p1 by simp
  next
    case None
    obtain x2 kb2 v2 where r2: "uc_rules rec (rules ?kb1) q ?kb1 v = Inr (x2, kb2, v2)"
      using run None
      by (cases "uc_rules rec (rules ?kb1) q ?kb1 v")
         (auto simp: deduce_steps_def case_prod_beta split: sum.splits)
    have p2: "post N ?K ?kb1 v kb2 v2" using uc_rules_post [OF rec q ok1 r2] .
    have ok2: "names_ok N kb2" using post_names_ok [OF p2 ok1] .
    have p12: "post N ?K ?kb1 v kb2 v2" using p1 p2 post_trans by blast
    show ?thesis
    proof (cases x2)
      case (Some res)
      then have "kb' = kb2 \<and> v' = v2"
        using run None r2 by (simp add: deduce_steps_def case_prod_beta)
      then show ?thesis using p12 by simp
    next
      case x2: None
      obtain x3 kb3 v3 where r3: "std_rules rec (rules kb2) ?qe q kb2 v2 = Inr (x3, kb3, v3)"
        using run None r2 x2
        by (cases "std_rules rec (rules kb2) ?qe q kb2 v2")
           (auto simp: deduce_steps_def case_prod_beta split: sum.splits)
      have p3: "post N ?K kb2 v2 kb3 v3" using std_rules_post [OF rec ok2 r3] .
      have ok3: "names_ok N kb3" using post_names_ok [OF p3 ok2] .
      have p13: "post N ?K ?kb1 v kb3 v3" using p12 p3 post_trans by blast
      show ?thesis
      proof (cases x3)
        case (Some res)
        then have "kb' = kb3 \<and> v' = v3"
          using run None r2 x2 r3 by (simp add: deduce_steps_def case_prod_beta)
        then show ?thesis using p13 by simp
      next
        case x3: None
        show ?thesis
        proof (cases "predicate q = ''is'' \<or> predicate q = ''part of''")
          case False
          then have "kb' = kb3 \<and> v' = v3"
            using run None r2 x2 r3 x3 by (simp add: deduce_steps_def case_prod_beta)
          then show ?thesis using p13 by simp
        next
          case True
          obtain x4 kb4 v4 where r4:
            "trans_facts rec (zip (fact_encodings kb3) (facts kb3)) q kb3 v3 = Inr (x4, kb4, v4)"
            using run None r2 x2 r3 x3 True
            by (cases "trans_facts rec (zip (fact_encodings kb3) (facts kb3)) q kb3 v3")
               (auto simp: deduce_steps_def case_prod_beta split: sum.splits)
          have p4: "post N ?K kb3 v3 kb4 v4"
            using trans_facts_post [OF rec q ok3 zip_objects_in [OF ok3] r4] .
          have "kb' = kb4 \<and> v' = v4"
            using run None r2 x2 r3 x3 True r4
            by (cases x4) (simp_all add: deduce_steps_def case_prod_beta)
          then show ?thesis using p13 p4 post_trans by blast
        qed
      qed
    qed
  qed
qed

lemma deduce_steps_post:
  assumes rec: "rec_post N rec" and q: "fact_in N q" and ok: "names_ok N kb"
    and run: "deduce_steps rec q kb v = Inr (r, kb', v')"
  shows "post N (keys_of N) kb v kb' v'"
proof -
  have "post N (keys_of N) kb v (snd (encode_fact q kb)) v"
    using encode_fact_reach [OF q] by (rule post_reach)
  then show ?thesis using deduce_steps_post_enc [OF rec q ok run] post_trans by blast
qed

lemma str_fact_key: "fact_in N q \<Longrightarrow> str_fact q \<in> keys_of N"
  by (simp add: keys_of_def)

lemma deduce_rec_post: "rec_post N (deduce_rec n)"
proof (induction n)
  case 0
  then show ?case by (simp add: rec_post_def)
next
  case (Suc n)
  show ?case unfolding rec_post_def
  proof (intro allI impI)
    fix kb q v r kb' v'
    assume ok: "names_ok N kb" and q: "fact_in N q"
      and run: "deduce_rec (Suc n) kb q v = Inr (r, kb', v')"
    let ?K = "keys_of N"
    show "post N ?K kb v kb' v'"
    proof (cases "str_fact q \<in> v")
      case True
      then have "kb' = kb \<and> v' = v" using run by simp
      then show ?thesis by (simp add: post_refl)
    next
      case nv: False
      let ?v1 = "insert (str_fact q) v"
      have pv: "post N ?K kb v kb ?v1"
        using str_fact_key [OF q] by (auto simp: post_def reach_refl)
      show ?thesis
      proof (cases "predicate q = ''is'' \<and> subject q = object q")
        case True
        then have "kb' = kb \<and> v' = ?v1" using run nv by simp
        then show ?thesis using pv by simp
      next
        case ni: False
        obtain c kb1 cv where ch:
          "(if predicate q = ''is'' then universal_chain n kb (subject q) (object q) {}
            else (Inr None, kb, {})) = (c, kb1, cv)"
          by (cases "if predicate q = ''is'' then universal_chain n kb (subject q) (object q) {}
                     else (Inr None, kb, {})") auto
        have r1: "reach N kb kb1"
        proof (cases "predicate q = ''is''")
          case True
          then have "universal_chain n kb (subject q) (object q) {} = (c, kb1, cv)"
            using ch by simp
          moreover have "subject q \<in> N" using q by (simp add: fact_in_def)
          ultimately have "post N N kb {} kb1 cv"
            using universal_chain_post [OF ok] by blast
          then show ?thesis by (simp add: post_def)
        next
          case False
          then show ?thesis using ch by (simp add: reach_refl)
        qed
        have ok1: "names_ok N kb1" using reach_names_ok [OF r1 ok] .
        have p1: "post N ?K kb v kb1 ?v1"
          using r1 str_fact_key [OF q] by (auto simp: post_def)
        show ?thesis
        proof (cases "\<exists>chain. c = Inr (Some chain) \<and> chain \<noteq> []")
          case True
          then have "kb' = kb1 \<and> v' = ?v1"
            using run nv ni ch by (auto simp: Let_def)
          then show ?thesis using p1 by simp
        next
          case False
          then have "deduce_steps (deduce_rec n) q kb1 ?v1 = Inr (r, kb', v')"
            using run nv ni ch by (auto simp: Let_def split: option.splits sum.splits if_splits)
          then have "post N ?K kb1 ?v1 kb' v'"
            using deduce_steps_post [OF Suc.IH q ok1] by simp
          then show ?thesis using p1 post_trans by blast
        qed
      qed
    qed
  qed
qed

section \<open>The names a query can meet\<close>

lemma lower_char_idem: "lower_char (lower_char c) = lower_char c"
proof -
  have "of_char (char_of (of_char c + (32::nat)) :: char) = (of_char c + 32 :: nat)"
    if "(of_char c :: nat) \<le> 222"
    using that by simp
  then show ?thesis by (auto simp: lower_char_def Let_def)
qed

lemma lower_idem: "lower (lower s) = lower s"
  by (simp add: lower_def lower_char_idem)

definition name_base :: "KnowledgeBase \<Rightarrow> Fact \<Rightarrow> string set" where
  "name_base kb q =
     {subject q, predicate q, object q, ''is''} \<union> p2c_names kb \<union> object ` set (facts kb)"

definition universe :: "KnowledgeBase \<Rightarrow> Fact \<Rightarrow> string set" where
  "universe kb q = name_base kb q \<union> lower ` name_base kb q"

lemma finite_universe: "finite (universe kb q)"
  by (simp add: universe_def name_base_def p2c_names_def)

lemma universe_names_ok: "names_ok (universe kb q) kb"
  by (auto simp: names_ok_def universe_def name_base_def lower_idem)

lemma universe_fact_in: "fact_in (universe kb q) q"
  by (simp add: fact_in_def universe_def name_base_def)

lemma deduce_post:
  "deduce depth kb q = Inr (r, kb') \<Longrightarrow> reach (universe kb q) kb kb'"
proof -
  assume a: "deduce depth kb q = Inr (r, kb')"
  then obtain v' where "deduce_rec depth kb q {} = Inr (r, kb', v')"
    by (auto simp: deduce_def split: option.splits sum.splits)
  then have "post (universe kb q) (keys_of (universe kb q)) kb {} kb' v'"
    using rec_postD [OF deduce_rec_post universe_names_ok universe_fact_in] by blast
  then show ?thesis by (simp add: post_def)
qed

section \<open>Well-formed encoders and knowledge bases\<close>

text \<open>
  The states the constructors and operations produce: the generator holds the primes up
  to its limit in increasing order, the registry's two dictionaries mirror each other,
  their primes are the first \<open>next_index\<close> primes in the order they were handed out,
  and every registered name is lower-cased.
\<close>

definition enc_wf :: "PrimeEncoder \<Rightarrow> bool" where
  "enc_wf e =
     (pg_wf (prime_gen e) \<and>
      next_index e \<le> length (primes (prime_gen e)) \<and>
      map fst (prime_to_concept e) = take (next_index e) (primes (prime_gen e)) \<and>
      concept_to_prime e = map (\<lambda>(p, c). (c, p)) (prime_to_concept e) \<and>
      distinct (map snd (prime_to_concept e)) \<and>
      list_all (\<lambda>(p, c). lower c = c) (prime_to_concept e))"

lemma pg_wf_distinct: "pg_wf g \<Longrightarrow> distinct (primes g)"
  unfolding pg_wf_def by (simp add: distinct_map inj_on_def)

lemma get_props:
  "(\<exists>ys. primes (snd (get i g)) = primes g @ ys) \<and>
   i < length (primes (snd (get i g))) \<and>
   fst (get i g) = primes (snd (get i g)) ! i \<and>
   (pg_wf g \<longrightarrow> pg_wf (snd (get i g)))"
  by (simp add: get_def Let_def get_loop_appends get_loop_length pg_wf_get_loop)

lemma dict_set_new: "k \<notin> fst ` set d \<Longrightarrow> dict_set k v d = d @ [(k, v)]"
  unfolding dict_set_def by (induction d) auto

lemma map_of_mirror_None:
  "map_of (map (\<lambda>(p, c). (c, p)) d) k = None \<Longrightarrow> k \<notin> snd ` set d"
  by (induction d) (auto split: if_splits)

lemma assign_prime_wf:
  assumes wf: "enc_wf e" and new: "map_of (concept_to_prime e) k = None" and low: "lower k = k"
  shows "enc_wf (snd (assign_prime k e)) \<and>
         fst (assign_prime k e) \<notin> fst ` set (prime_to_concept e) \<and>
         prime_to_concept (snd (assign_prime k e))
           = prime_to_concept e @ [(fst (assign_prime k e), k)] \<and>
         concept_to_prime (snd (assign_prime k e))
           = concept_to_prime e @ [(k, fst (assign_prime k e))]"
proof -
  let ?g = "prime_gen e" and ?i = "next_index e"
  let ?g' = "snd (get ?i ?g)" and ?p = "fst (get ?i ?g)"
  obtain ys where ys: "primes ?g' = primes ?g @ ys" using get_props by blast
  have len: "?i < length (primes ?g')" and p: "?p = primes ?g' ! ?i" and pg: "pg_wf ?g'"
    using get_props [of ?i ?g] wf by (auto simp: enc_wf_def)
  have i2: "?i \<le> length (primes ?g)" using wf by (simp add: enc_wf_def)
  have tk: "take ?i (primes ?g') = take ?i (primes ?g)" using ys i2 by simp
  have keys: "map fst (prime_to_concept e) = take ?i (primes ?g')"
    using wf tk by (simp add: enc_wf_def)
  have "primes ?g' ! ?i \<notin> set (take ?i (primes ?g'))"
    using pg_wf_distinct [OF pg] len
    by (metis distinct_take id_take_nth_drop not_distinct_conv_prefix take_Suc_conv_app_nth)
  then have fresh: "?p \<notin> fst ` set (prime_to_concept e)"
    using keys p by (metis list.set_map)
  have knew: "k \<notin> fst ` set (concept_to_prime e)"
    using new by (simp add: map_of_eq_None_iff)
  have knew2: "k \<notin> snd ` set (prime_to_concept e)"
    using new wf map_of_mirror_None by (simp add: enc_wf_def)
  have p2c: "prime_to_concept (snd (assign_prime k e)) = prime_to_concept e @ [(?p, k)]"
    using fresh by (simp add: assign_prime_eq dict_set_new)
  have c2p: "concept_to_prime (snd (assign_prime k e)) = concept_to_prime e @ [(k, ?p)]"
    using knew by (simp add: assign_prime_eq dict_set_new)
  have tk2: "take (?i + 1) (primes ?g') = take ?i (primes ?g') @ [?p]"
    using len p by (simp add: take_Suc_conv_app_nth)
  have "enc_wf (snd (assign_prime k e))"
    unfolding enc_wf_def p2c c2p
    using wf pg len keys tk2 knew2 low
    by (simp add: assign_prime_eq enc_wf_def)
  then show ?thesis using fresh p2c c2p by (simp add: assign_prime_eq)
qed

lemma get_prime_wf: "enc_wf e \<Longrightarrow> enc_wf (snd (get_prime c e))"
proof (cases "map_of (concept_to_prime e) (lower c)")
  case None
  assume "enc_wf e"
  then show ?thesis using assign_prime_wf [OF _ None] by (simp add: get_prime_new [OF None] lower_idem)
next
  case (Some p)
  assume "enc_wf e"
  then show ?thesis using Some by (simp add: get_prime_known)
qed

lemma get_prime_p2c_extends:
  "enc_wf e \<Longrightarrow> \<exists>ys. prime_to_concept (snd (get_prime c e)) = prime_to_concept e @ ys \<and>
     fst ` set ys \<inter> fst ` set (prime_to_concept e) = {}"
proof (cases "map_of (concept_to_prime e) (lower c)")
  case None
  assume wf: "enc_wf e"
  show ?thesis
    using assign_prime_wf [OF wf None lower_idem] by (simp add: get_prime_new [OF None])
next
  case (Some p)
  then show ?thesis by (simp add: get_prime_known)
qed

lemma get_prime_p2c_lookup:
  "enc_wf e \<Longrightarrow> p \<in> fst ` set (prime_to_concept e) \<Longrightarrow>
   map_of (prime_to_concept (snd (get_prime c e))) p = map_of (prime_to_concept e) p"
proof -
  assume wf: "enc_wf e" and p: "p \<in> fst ` set (prime_to_concept e)"
  obtain ys where ys: "prime_to_concept (snd (get_prime c e)) = prime_to_concept e @ ys"
    using get_prime_p2c_extends [OF wf] by blast
  obtain x where "map_of (prime_to_concept e) p = Some x"
    using p by (metis domD dom_map_of_conv_image_fst)
  then show ?thesis by (simp add: ys map_add_def)
qed

lemma PrimeEncoder_init_wf: "enc_wf PrimeEncoder_init"
proof -
  have "pg_wf \<lparr>primes = primes_upto_1000, sieve_limit = 1000\<rparr>"
    using pg_wf_init [of 1000] by (simp add: PrimeGenerator_init_1000)
  moreover have "take 1 primes_upto_1000 = [2]" by (simp add: primes_upto_1000_def)
  moreover have "1 \<le> length primes_upto_1000" by (simp add: primes_upto_1000_def)
  moreover have "lower ''_sign'' = ''_sign''" by code_simp
  ultimately show ?thesis by (simp add: enc_wf_def PrimeEncoder_init_eval)
qed

definition rule_wf :: "PrimeEncoder \<Rightarrow> EncodedRule \<Rightarrow> bool" where
  "rule_wf e r =
     (case r of
        UCRule kind cat prp pred ce cc \<Rightarrow>
          cat \<in> fst ` set (prime_to_concept e) \<and> prp \<in> fst ` set (prime_to_concept e) \<and>
          (if kind = Universal then ''is'' \<in> fst ` set (concept_to_prime e) else True)
      | StdRule ces cc \<Rightarrow> True)"

definition kb_wf :: "KnowledgeBase \<Rightarrow> bool" where
  "kb_wf kb = (enc_wf (encoder kb) \<and> list_all (rule_wf (encoder kb)) (rules kb))"

lemma get_prime_keys_mono:
  "enc_wf e \<Longrightarrow>
   fst ` set (prime_to_concept e) \<subseteq> fst ` set (prime_to_concept (snd (get_prime c e))) \<and>
   fst ` set (concept_to_prime e) \<subseteq> fst ` set (concept_to_prime (snd (get_prime c e)))"
proof -
  assume wf: "enc_wf e"
  obtain ys where "prime_to_concept (snd (get_prime c e)) = prime_to_concept e @ ys"
    using get_prime_p2c_extends [OF wf] by blast
  then have 1: "fst ` set (prime_to_concept e) \<subseteq> fst ` set (prime_to_concept (snd (get_prime c e)))"
    by auto
  have "dom (map_of (concept_to_prime e)) \<subseteq> dom (map_of (concept_to_prime (snd (get_prime c e))))"
    using get_prime_c2p [of c e] by (simp add: map_le_implies_dom_le)
  then show ?thesis using 1 by (simp add: dom_map_of_conv_image_fst)
qed

lemma get_prime_registered:
  "enc_wf e \<Longrightarrow>
   fst (get_prime c e) \<in> fst ` set (prime_to_concept (snd (get_prime c e))) \<and>
   lower c \<in> fst ` set (concept_to_prime (snd (get_prime c e)))"
proof -
  assume wf: "enc_wf e"
  let ?e = "snd (get_prime c e)"
  have wf': "enc_wf ?e" using wf by (rule get_prime_wf)
  have l: "map_of (concept_to_prime ?e) (lower c) = Some (fst (get_prime c e))"
    using get_prime_c2p by blast
  then have "(lower c, fst (get_prime c e)) \<in> set (concept_to_prime ?e)"
    by (rule map_of_SomeD)
  then have "(fst (get_prime c e), lower c) \<in> set (prime_to_concept ?e)"
    using wf' by (auto simp: enc_wf_def)
  then have "fst (get_prime c e) \<in> fst ` set (prime_to_concept ?e)" by force
  moreover have "lower c \<in> fst ` set (concept_to_prime ?e)"
    using l by (metis domI dom_map_of_conv_image_fst)
  ultimately show ?thesis by simp
qed

lemma rule_wf_mono:
  "rule_wf e r \<Longrightarrow> fst ` set (prime_to_concept e) \<subseteq> fst ` set (prime_to_concept e') \<Longrightarrow>
   fst ` set (concept_to_prime e) \<subseteq> fst ` set (concept_to_prime e') \<Longrightarrow> rule_wf e' r"
  unfolding rule_wf_def by (cases r) (auto split: if_splits)

lemma kb_get_prime_wf: "kb_wf kb \<Longrightarrow> kb_wf (snd (kb_get_prime c kb))"
proof -
  assume wf: "kb_wf kb"
  have e: "enc_wf (encoder kb)" using wf by (simp add: kb_wf_def)
  have "list_all (rule_wf (snd (get_prime c (encoder kb)))) (rules kb)"
    using wf get_prime_keys_mono [OF e, of c]
    by (auto simp: kb_wf_def list_all_iff intro: rule_wf_mono)
  then show ?thesis using get_prime_wf [OF e] by (simp add: kb_wf_def kb_get_prime_eq)
qed

lemma reach_wf: "reach N kb kb' \<Longrightarrow> kb_wf kb \<Longrightarrow> kb_wf kb'"
  by (induction rule: reach.induct) (auto intro: kb_get_prime_wf)

lemma reach_keys_mono:
  "reach N kb kb' \<Longrightarrow> kb_wf kb \<Longrightarrow>
   fst ` set (prime_to_concept (encoder kb)) \<subseteq> fst ` set (prime_to_concept (encoder kb')) \<and>
   fst ` set (concept_to_prime (encoder kb)) \<subseteq> fst ` set (concept_to_prime (encoder kb'))"
proof (induction rule: reach.induct)
  case (reach_refl kb)
  then show ?case by simp
next
  case (reach_step kb kb' c)
  have "enc_wf (encoder kb')" using reach_wf [OF reach_step.hyps(1) reach_step.prems] by (simp add: kb_wf_def)
  then show ?case
    using get_prime_keys_mono [of "encoder kb'" c] reach_step.IH [OF reach_step.prems]
    by (simp add: kb_get_prime_eq) blast
qed

lemma reach_p2c_lookup:
  "reach N kb kb' \<Longrightarrow> kb_wf kb \<Longrightarrow> p \<in> fst ` set (prime_to_concept (encoder kb)) \<Longrightarrow>
   map_of (prime_to_concept (encoder kb')) p = map_of (prime_to_concept (encoder kb)) p"
proof (induction rule: reach.induct)
  case (reach_refl kb)
  then show ?case by simp
next
  case (reach_step kb kb' c)
  have wf': "kb_wf kb'" using reach_wf [OF reach_step.hyps(1) reach_step.prems(1)] .
  have "p \<in> fst ` set (prime_to_concept (encoder kb'))"
    using reach_keys_mono [OF reach_step.hyps(1) reach_step.prems(1)] reach_step.prems(2) by blast
  then have "map_of (prime_to_concept (encoder (snd (kb_get_prime c kb')))) p
           = map_of (prime_to_concept (encoder kb')) p"
    using get_prime_p2c_lookup [of "encoder kb'" p c] wf' by (simp add: kb_wf_def kb_get_prime_eq)
  then show ?case using reach_step.IH [OF reach_step.prems] by simp
qed

lemma KnowledgeBase_init_wf: "enc_wf e \<Longrightarrow> kb_wf (KnowledgeBase_init e)"
  by (simp add: kb_wf_def KnowledgeBase_init_def)

lemma encode_fact_reach_UNIV: "reach UNIV kb (snd (encode_fact q kb))"
  by (rule encode_fact_reach) (simp add: fact_in_def)

lemma encode_fact_wf: "kb_wf kb \<Longrightarrow> kb_wf (snd (encode_fact q kb))"
  using reach_wf [OF encode_fact_reach_UNIV] .

lemma add_fact_wf: "kb_wf kb \<Longrightarrow> kb_wf (snd (add_fact q kb))"
proof -
  assume "kb_wf kb"
  then have "kb_wf (snd (encode_fact q kb))" by (rule encode_fact_wf)
  then show ?thesis by (simp add: add_fact_def case_prod_beta kb_wf_def)
qed

lemma encode_facts_reach: "reach UNIV kb (snd (encode_facts cs kb))"
proof (induction cs arbitrary: kb)
  case Nil
  then show ?case by (simp add: reach_refl)
next
  case (Cons c cs)
  have "reach UNIV (snd (encode_fact c kb)) (snd (encode_facts cs (snd (encode_fact c kb))))"
    by (rule Cons.IH)
  then have "reach UNIV kb (snd (encode_facts cs (snd (encode_fact c kb))))"
    using encode_fact_reach_UNIV reach_trans by blast
  then show ?case by (simp add: case_prod_beta)
qed

lemma add_rule_wf:
  assumes wf: "kb_wf kb" and run: "add_rule rule kb = Inr (er, kb')"
  shows "kb_wf kb'"
proof (cases "type rule = ''universal'' \<or> type rule = ''capability''")
  case False
  let ?kb1 = "snd (encode_facts (conditions rule) kb)"
  let ?kb2 = "snd (encode_fact (conclusion rule) ?kb1)"
  have "reach UNIV kb ?kb2"
    using encode_facts_reach [of kb "conditions rule"] encode_fact_reach_UNIV [of ?kb1 "conclusion rule"]
      reach_trans by blast
  then have wf2: "kb_wf ?kb2" using reach_wf wf by blast
  have "kb' = ?kb2\<lparr>rules := rules ?kb2 @ [er]\<rparr> \<and> (\<exists>ces cc. er = StdRule ces cc)"
    using run False by (auto simp: add_rule_def case_prod_beta Let_def)
  then show ?thesis using wf2 by (auto simp: kb_wf_def rule_wf_def)
next
  case True
  obtain cond cs where cond: "conditions rule = cond # cs"
    using run True by (cases "conditions rule") (auto simp: add_rule_def)
  obtain cat where cat: "category rule = Some cat"
    using run True cond by (cases "category rule") (auto simp: add_rule_def case_prod_beta Let_def)
  let ?po = "if type rule = ''universal'' then property rule else capability rule"
  obtain prp where prp: "?po = Some prp"
    using run True cond cat by (cases ?po) (auto simp: add_rule_def case_prod_beta Let_def)
  let ?kb1 = "snd (encode_fact cond kb)"
  let ?kb2 = "snd (encode_fact (conclusion rule) ?kb1)"
  let ?kb3 = "snd (kb_get_prime cat ?kb2)"
  let ?kb4 = "snd (kb_get_prime prp ?kb3)"
  let ?pn = "if type rule = ''universal'' then ''is'' else ''can''"
  let ?kb5 = "snd (kb_get_prime ?pn ?kb4)"
  have r2: "reach UNIV kb ?kb2"
    using encode_fact_reach_UNIV [of kb cond] encode_fact_reach_UNIV [of ?kb1 "conclusion rule"]
      reach_trans by blast
  have wf2: "kb_wf ?kb2" using reach_wf [OF r2 wf] .
  have wf3: "kb_wf ?kb3" using kb_get_prime_wf [OF wf2] .
  have wf4: "kb_wf ?kb4" using kb_get_prime_wf [OF wf3] .
  have wf5: "kb_wf ?kb5" using kb_get_prime_wf [OF wf4] .
  have e2: "enc_wf (encoder ?kb2)" and e3: "enc_wf (encoder ?kb3)" and e4: "enc_wf (encoder ?kb4)"
    using wf2 wf3 wf4 by (simp_all add: kb_wf_def)
  have c3: "fst (kb_get_prime cat ?kb2) \<in> fst ` set (prime_to_concept (encoder ?kb3))"
    using get_prime_registered [OF e2, of cat] by (simp add: kb_get_prime_eq)
  have p4: "fst (kb_get_prime prp ?kb3) \<in> fst ` set (prime_to_concept (encoder ?kb4))"
    using get_prime_registered [OF e3, of prp] by (simp add: kb_get_prime_eq)
  have m4: "fst ` set (prime_to_concept (encoder ?kb3)) \<subseteq> fst ` set (prime_to_concept (encoder ?kb4))"
    using get_prime_keys_mono [OF e3, of prp] by (simp add: kb_get_prime_eq)
  have m5: "fst ` set (prime_to_concept (encoder ?kb4)) \<subseteq> fst ` set (prime_to_concept (encoder ?kb5))"
    using get_prime_keys_mono [OF e4, of ?pn] by (simp add: kb_get_prime_eq)
  have is5: "type rule = ''universal'' \<Longrightarrow> ''is'' \<in> fst ` set (concept_to_prime (encoder ?kb5))"
  proof -
    assume u: "type rule = ''universal''"
    have "lower ''is'' = ''is''" by code_simp
    then show ?thesis using get_prime_registered [OF e4, of "''is''"] u
      by (simp add: kb_get_prime_eq)
  qed
  let ?er = "UCRule (if type rule = ''universal'' then Universal else Capability)
               (fst (kb_get_prime cat ?kb2)) (fst (kb_get_prime prp ?kb3))
               (fst (kb_get_prime ?pn ?kb4)) (fst (encode_fact cond kb))
               (fst (encode_fact (conclusion rule) ?kb1))"
  have res: "kb' = ?kb5\<lparr>rules := rules ?kb5 @ [?er]\<rparr>"
    using run True cond cat prp by (auto simp: add_rule_def case_prod_beta Let_def)
  have c5: "fst (kb_get_prime cat ?kb2) \<in> fst ` set (prime_to_concept (encoder ?kb5))"
    using c3 m4 m5 by blast
  have p5: "fst (kb_get_prime prp ?kb3) \<in> fst ` set (prime_to_concept (encoder ?kb5))"
    using p4 m5 by blast
  have "rule_wf (encoder ?kb5) ?er"
    unfolding rule_wf_def EncodedRule.case using c5 p5 is5 by (simp only: if_True simp_thms split: if_split) blast
  then show ?thesis using wf5 by (simp add: res kb_wf_def)
qed

section \<open>Termination of the chain search\<close>

lemma card_Diff_visit:
  "finite N \<Longrightarrow> v \<subseteq> v' \<Longrightarrow> card (N - v') \<le> card (N - v)"
  by (intro card_mono) auto

lemma card_Diff_insert_less:
  "finite N \<Longrightarrow> x \<in> N \<Longrightarrow> x \<notin> v \<Longrightarrow> card (N - insert x v) < card (N - v)"
  by (intro psubset_card_mono) auto

lemma chain_rules_total:
  assumes rec: "\<And>kb s v. names_ok N kb \<Longrightarrow> s \<in> N \<Longrightarrow> card (N - v) < n \<Longrightarrow>
                  \<not> isl (fst (rec kb s target v))"
    and recp: "\<And>kb s v c kb' v'. names_ok N kb \<Longrightarrow> s \<in> N \<Longrightarrow>
                  rec kb s target v = (c, kb', v') \<Longrightarrow> post N N kb v kb' v'"
    and fin: "finite N"
  shows "names_ok N kb \<Longrightarrow> card (N - v) < n \<Longrightarrow>
         \<not> isl (fst (chain_rules rec rs subj sp target kb v))"
proof (induction rs arbitrary: kb v)
  case Nil
  then show ?case by simp
next
  case (Cons r rs)
  show ?case
  proof (cases r)
    case (StdRule ces cc)
    then show ?thesis using Cons by simp
  next
    case (UCRule kind cat prp pred ce cc)
    show ?thesis
    proof (cases "kind = Universal \<and> cat = sp \<and>
                  (\<exists>x. map_of (prime_to_concept (encoder kb)) prp = Some x \<and> x \<noteq> [])")
      case False
      then have "chain_rules rec (r # rs) subj sp target kb v = chain_rules rec rs subj sp target kb v"
        using UCRule by (auto split: option.splits)
      then show ?thesis using Cons by simp
    next
      case True
      then obtain x where x: "kind = Universal" "cat = sp"
        "map_of (prime_to_concept (encoder kb)) prp = Some x" "x \<noteq> []" by blast
      have xN: "x \<in> N" using p2c_lookup_in [OF Cons.prems(1) x(3)] .
      obtain co kb1 v1 where r1: "rec kb x target v = (Inr co, kb1, v1)"
        using rec [OF Cons.prems(1) xN Cons.prems(2)]
        by (cases "rec kb x target v"; cases "fst (rec kb x target v)") auto
      have p1: "post N N kb v kb1 v1" using recp [OF Cons.prems(1) xN r1] .
      have ok1: "names_ok N kb1" using post_names_ok [OF p1 Cons.prems(1)] .
      have "card (N - v1) \<le> card (N - v)"
        using p1 fin by (intro card_Diff_visit) (auto simp: post_def)
      then have c1: "card (N - v1) < n" using Cons.prems(2) by simp
      have y: "\<not> isl (fst (chain_rules rec rs subj sp target kb1 v1))"
        using Cons.IH [OF ok1 c1] .
      show ?thesis using UCRule x r1 y by (cases co) auto
    qed
  qed
qed

lemma universal_chain_total:
  "finite N \<Longrightarrow> names_ok N kb \<Longrightarrow> subj \<in> N \<Longrightarrow> card (N - v) < n \<Longrightarrow>
   \<not> isl (fst (universal_chain n kb subj target v))"
proof (induction n arbitrary: kb subj v)
  case 0
  then show ?case by simp
next
  case (Suc n)
  show ?case
  proof (cases "subj = target \<or> subj \<in> v")
    case True
    then show ?thesis by auto
  next
    case False
    let ?kb1 = "snd (kb_get_prime subj kb)"
    let ?sp = "fst (kb_get_prime subj kb)"
    have r1: "reach N kb ?kb1" using Suc.prems(3) by (rule reach_one)
    have ok1: "names_ok N ?kb1" using reach_names_ok [OF r1 Suc.prems(2)] .
    have "card (N - insert subj v) < card (N - v)"
      using Suc.prems(1,3) False by (intro card_Diff_insert_less) auto
    then have c1: "card (N - insert subj v) < n" using Suc.prems(4) by simp
    have "\<not> isl (fst (chain_rules (universal_chain n) (rules ?kb1) subj ?sp target ?kb1 (insert subj v)))"
      using Suc.IH [OF Suc.prems(1)] universal_chain_post Suc.prems(1) ok1 c1
      by (intro chain_rules_total [where N = N and n = n]) blast+
    then show ?thesis using False by (simp add: case_prod_beta)
  qed
qed


section \<open>Termination of deduction\<close>

definition good :: "error + 'a \<Rightarrow> bool" where
  "good x = (\<exists>y. x = Inr y)"

definition rec_total ::
  "string set \<Rightarrow> nat \<Rightarrow> (KnowledgeBase \<Rightarrow> Fact \<Rightarrow> string set \<Rightarrow> deduce_run) \<Rightarrow> bool" where
  "rec_total N n rec =
     (\<forall>kb q v. names_ok N kb \<longrightarrow> kb_wf kb \<longrightarrow> fact_in N q \<longrightarrow>
        card (keys_of N - v) + card N < n \<longrightarrow> good (rec kb q v))"

lemma rec_totalD:
  "rec_total N n rec \<Longrightarrow> names_ok N kb \<Longrightarrow> kb_wf kb \<Longrightarrow> fact_in N q \<Longrightarrow>
   card (keys_of N - v) + card N < n \<Longrightarrow> \<exists>r kb' v'. rec kb q v = Inr (r, kb', v')"
  unfolding rec_total_def good_def by (metis prod_cases3)

lemma finite_keys_of: "finite N \<Longrightarrow> finite (keys_of N)"
proof -
  assume fin: "finite N"
  have "{f. fact_in N f} \<subseteq> (\<lambda>(s, p, ob). \<lparr>subject = s, predicate = p, object = ob\<rparr>) ` (N \<times> N \<times> N)"
  proof
    fix f :: Fact
    assume "f \<in> {f. fact_in N f}"
    then have "(subject f, predicate f, object f) \<in> N \<times> N \<times> N" by (simp add: fact_in_def)
    moreover have "f = (\<lambda>(s, p, ob). \<lparr>subject = s, predicate = p, object = ob\<rparr>)
                         (subject f, predicate f, object f)" by simp
    ultimately show "f \<in> (\<lambda>(s, p, ob). \<lparr>subject = s, predicate = p, object = ob\<rparr>) ` (N \<times> N \<times> N)"
      by (rule rev_image_eqI)
  qed
  moreover have "finite ((\<lambda>(s, p, ob). \<lparr>subject = s, predicate = p, object = ob\<rparr>) ` (N \<times> N \<times> N))"
    using fin by simp
  ultimately have "finite {f. fact_in N f}" by (rule finite_subset)
  then show ?thesis by (simp add: keys_of_def)
qed

lemma post_card:
  "finite N \<Longrightarrow> post N (keys_of N) kb v kb' v' \<Longrightarrow>
   card (keys_of N - v) + card N < n \<Longrightarrow> card (keys_of N - v') + card N < n"
proof -
  assume a: "finite N" "post N (keys_of N) kb v kb' v'" "card (keys_of N - v) + card N < n"
  have "card (keys_of N - v') \<le> card (keys_of N - v)"
    using a(2) finite_keys_of [OF a(1)] by (intro card_Diff_visit) (auto simp: post_def)
  then show ?thesis using a(3) by simp
qed

lemma post_wf: "post N K kb v kb' v' \<Longrightarrow> kb_wf kb \<Longrightarrow> kb_wf kb'"
  unfolding post_def using reach_wf by blast

lemma post_rules: "post N K kb v kb' v' \<Longrightarrow> rules kb' = rules kb"
  unfolding post_def using reach_same_store by (auto simp: same_store_def)

lemma post_facts:
  "post N K kb v kb' v' \<Longrightarrow> facts kb' = facts kb \<and> fact_encodings kb' = fact_encodings kb"
  unfolding post_def using reach_same_store by (auto simp: same_store_def)

lemma rule_cat_lookup:
  "kb_wf kb \<Longrightarrow> UCRule kind cat prp pred ce cc \<in> set (rules kb) \<Longrightarrow>
   \<exists>cn. map_of (prime_to_concept (encoder kb)) cat = Some cn"
proof -
  assume wf: "kb_wf kb" and r: "UCRule kind cat prp pred ce cc \<in> set (rules kb)"
  have "rule_wf (encoder kb) (UCRule kind cat prp pred ce cc)"
    using wf r by (auto simp: kb_wf_def list_all_iff)
  then have "cat \<in> fst ` set (prime_to_concept (encoder kb))" by (simp add: rule_wf_def)
  then show ?thesis by (metis domD dom_map_of_conv_image_fst)
qed

lemma uc_rules_total:
  assumes recp: "rec_post N rec" and rect: "rec_total N n rec" and fin: "finite N"
    and q: "fact_in N q"
  shows "names_ok N kb \<Longrightarrow> kb_wf kb \<Longrightarrow> set rs \<subseteq> set (rules kb) \<Longrightarrow>
         card (keys_of N - v) + card N < n \<Longrightarrow> good (uc_rules rec rs q kb v)"
proof (induction rs arbitrary: kb v)
  case Nil
  then show ?case by (simp add: good_def)
next
  case (Cons r rs)
  have rs: "set rs \<subseteq> set (rules kb)" and rin: "r \<in> set (rules kb)" using Cons.prems(3) by auto
  show ?case
  proof (cases r)
    case (StdRule ces cc)
    then show ?thesis using Cons.IH [OF Cons.prems(1,2) rs Cons.prems(4)] by simp
  next
    case (UCRule kind cat prp pred ce cc)
    show ?thesis
    proof (cases "predicate q = (if kind = Universal then ''is'' else ''can'')")
      case False
      then show ?thesis using Cons.IH [OF Cons.prems(1,2) rs Cons.prems(4)] UCRule by simp
    next
      case pm: True
      let ?kb1 = "snd (kb_get_prime (object q) kb)"
      have r1: "reach N kb ?kb1" using q by (intro reach_one) (simp add: fact_in_def)
      have ok1: "names_ok N ?kb1" using reach_names_ok [OF r1 Cons.prems(1)] .
      have wf1: "kb_wf ?kb1" using reach_wf [OF r1 Cons.prems(2)] .
      have ru1: "rules ?kb1 = rules kb" by (simp add: kb_get_prime_eq)
      show ?thesis
      proof (cases "fst (kb_get_prime (object q) kb) = prp")
        case False
        have "good (uc_rules rec rs q ?kb1 v)"
          using Cons.IH [OF ok1 wf1 _ Cons.prems(4)] rs ru1 by simp
        then show ?thesis using UCRule pm False by (simp add: case_prod_beta)
      next
        case om: True
        obtain cn where cn: "map_of (prime_to_concept (encoder ?kb1)) cat = Some cn"
          using rule_cat_lookup [OF wf1] rin UCRule ru1 by metis
        let ?m = "\<lparr>subject = subject q, predicate = ''is'', object = cn\<rparr>"
        have mN: "fact_in N ?m"
          using q ok1 p2c_lookup_in [OF ok1 cn] by (simp add: fact_in_def names_ok_def)
        obtain sub kb2 v2 where r2: "rec ?kb1 ?m v = Inr (sub, kb2, v2)"
          using rec_totalD [OF rect ok1 wf1 mN Cons.prems(4)] by blast
        have p2: "post N (keys_of N) ?kb1 v kb2 v2" using rec_postD [OF recp ok1 mN r2] .
        have ok2: "names_ok N kb2" using post_names_ok [OF p2 ok1] .
        have wf2: "kb_wf kb2" using post_wf [OF p2 wf1] .
        have ru2: "rules kb2 = rules kb" using post_rules [OF p2] ru1 by simp
        have c2: "card (keys_of N - v2) + card N < n" using post_card [OF fin p2 Cons.prems(4)] .
        obtain cn2 where cn2: "map_of (prime_to_concept (encoder kb2)) cat = Some cn2"
          using rule_cat_lookup [OF wf2] rin UCRule ru2 by metis
        show ?thesis
        proof (cases "result sub")
          case True
          then show ?thesis using UCRule pm om cn r2 cn2
            by (simp add: case_prod_beta Let_def good_def)
        next
          case False
          have "good (uc_rules rec rs q kb2 v2)"
            using Cons.IH [OF ok2 wf2 _ c2] rs ru2 by simp
          then show ?thesis using UCRule pm om cn r2 False by (simp add: case_prod_beta Let_def)
        qed
      qed
    qed
  qed
qed

lemma check_conditions_total:
  assumes recp: "rec_post N rec" and rect: "rec_total N n rec" and fin: "finite N"
  shows "names_ok N kb \<Longrightarrow> kb_wf kb \<Longrightarrow> card (keys_of N - v) + card N < n \<Longrightarrow>
         good (check_conditions rec cs ex kb v)"
proof (induction cs arbitrary: kb v ex)
  case Nil
  then show ?case by (simp add: good_def)
next
  case (Cons c cs)
  show ?case
  proof (cases "decode_fact c kb")
    case None
    then show ?thesis by (simp add: good_def)
  next
    case (Some f)
    have fN: "fact_in N f" using decode_fact_in [OF Cons.prems(1) Some] .
    obtain sub kb2 v2 where r2: "rec kb f v = Inr (sub, kb2, v2)"
      using rec_totalD [OF rect Cons.prems(1,2) fN Cons.prems(3)] by blast
    have p2: "post N (keys_of N) kb v kb2 v2" using rec_postD [OF recp Cons.prems(1) fN r2] .
    have ok2: "names_ok N kb2" using post_names_ok [OF p2 Cons.prems(1)] .
    have wf2: "kb_wf kb2" using post_wf [OF p2 Cons.prems(2)] .
    have c2: "card (keys_of N - v2) + card N < n" using post_card [OF fin p2 Cons.prems(3)] .
    show ?thesis
    proof (cases "result sub")
      case False
      then show ?thesis using Some r2 by (simp add: good_def)
    next
      case True
      then show ?thesis using Some r2 Cons.IH [OF ok2 wf2 c2] by simp
    qed
  qed
qed

lemma std_rules_total:
  assumes recp: "rec_post N rec" and rect: "rec_total N n rec" and fin: "finite N"
  shows "names_ok N kb \<Longrightarrow> kb_wf kb \<Longrightarrow> card (keys_of N - v) + card N < n \<Longrightarrow>
         good (std_rules rec rs qe q kb v)"
proof (induction rs arbitrary: kb v)
  case Nil
  then show ?case by (simp add: good_def)
next
  case (Cons r rs)
  show ?case
  proof (cases r)
    case (UCRule kind cat prp pred ce cc)
    then show ?thesis using Cons by simp
  next
    case (StdRule ces cc)
    show ?thesis
    proof (cases "dict_eq cc qe")
      case False
      then show ?thesis using Cons StdRule by simp
    next
      case True
      obtain eo kb2 v2 where r2: "check_conditions rec ces [] kb v = Inr (eo, kb2, v2)"
        using check_conditions_total [OF recp rect fin Cons.prems, of ces "[]"]
        by (auto simp: good_def)
      have p2: "post N (keys_of N) kb v kb2 v2"
        using check_conditions_post [OF recp Cons.prems(1) r2] .
      have ok2: "names_ok N kb2" using post_names_ok [OF p2 Cons.prems(1)] .
      have wf2: "kb_wf kb2" using post_wf [OF p2 Cons.prems(2)] .
      have c2: "card (keys_of N - v2) + card N < n" using post_card [OF fin p2 Cons.prems(3)] .
      show ?thesis
      proof (cases eo)
        case (Some ex)
        then show ?thesis using StdRule True r2 by (simp add: good_def)
      next
        case None
        then show ?thesis using StdRule True r2 Cons.IH [OF ok2 wf2 c2] by simp
      qed
    qed
  qed
qed

lemma trans_facts_total:
  assumes recp: "rec_post N rec" and rect: "rec_total N n rec" and fin: "finite N"
    and q: "fact_in N q"
  shows "names_ok N kb \<Longrightarrow> kb_wf kb \<Longrightarrow> object ` snd ` set fs \<subseteq> N \<Longrightarrow>
         card (keys_of N - v) + card N < n \<Longrightarrow> good (trans_facts rec fs q kb v)"
proof (induction fs arbitrary: kb v)
  case Nil
  then show ?case by (simp add: good_def)
next
  case (Cons item fs)
  obtain fe f where item: "item = (fe, f)" by (cases item)
  have fsN: "object ` snd ` set fs \<subseteq> N" and fN: "object f \<in> N"
    using Cons.prems(3) item by auto
  show ?case
  proof (cases "subject f = subject q \<and> predicate f = predicate q")
    case False
    then show ?thesis using Cons.IH [OF Cons.prems(1,2) fsN Cons.prems(4)] item by auto
  next
    case True
    let ?m = "\<lparr>subject = object f, predicate = predicate q, object = object q\<rparr>"
    have mN: "fact_in N ?m" using q fN by (simp add: fact_in_def)
    obtain sub kb2 v2 where r2: "rec kb ?m v = Inr (sub, kb2, v2)"
      using rec_totalD [OF rect Cons.prems(1,2) mN Cons.prems(4)] by blast
    have p2: "post N (keys_of N) kb v kb2 v2" using rec_postD [OF recp Cons.prems(1) mN r2] .
    have ok2: "names_ok N kb2" using post_names_ok [OF p2 Cons.prems(1)] .
    have wf2: "kb_wf kb2" using post_wf [OF p2 Cons.prems(2)] .
    have c2: "card (keys_of N - v2) + card N < n" using post_card [OF fin p2 Cons.prems(4)] .
    show ?thesis
    proof (cases "result sub")
      case True
      then show ?thesis using item \<open>subject f = subject q \<and> predicate f = predicate q\<close> r2
        by (simp add: good_def)
    next
      case False
      then show ?thesis using item True r2 Cons.IH [OF ok2 wf2 fsN c2] by simp
    qed
  qed
qed


lemma deduce_steps_total:
  assumes recp: "rec_post N rec" and rect: "rec_total N n rec" and fin: "finite N"
    and q: "fact_in N q" and ok: "names_ok N kb" and wf: "kb_wf kb"
    and c: "card (keys_of N - v) + card N < n"
  shows "good (deduce_steps rec q kb v)"
proof -
  let ?K = "keys_of N"
  let ?kb1 = "snd (encode_fact q kb)" and ?qe = "fst (encode_fact q kb)"
  have r1: "reach N kb ?kb1" using q by (rule encode_fact_reach)
  have ok1: "names_ok N ?kb1" using reach_names_ok [OF r1 ok] .
  have wf1: "kb_wf ?kb1" using reach_wf [OF r1 wf] .
  show ?thesis
  proof (cases "find_direct (zip (fact_encodings ?kb1) (facts ?kb1)) ?qe")
    case (Some f)
    then show ?thesis by (simp add: deduce_steps_def case_prod_beta good_def)
  next
    case None
    obtain x2 kb2 v2 where r2: "uc_rules rec (rules ?kb1) q ?kb1 v = Inr (x2, kb2, v2)"
      using uc_rules_total [OF recp rect fin q ok1 wf1 _ c, of "rules ?kb1"]
      by (auto simp: good_def)
    have p2: "post N ?K ?kb1 v kb2 v2" using uc_rules_post [OF recp q ok1 r2] .
    have ok2: "names_ok N kb2" using post_names_ok [OF p2 ok1] .
    have wf2: "kb_wf kb2" using post_wf [OF p2 wf1] .
    have c2: "card (?K - v2) + card N < n" using post_card [OF fin p2 c] .
    show ?thesis
    proof (cases x2)
      case (Some res)
      then show ?thesis using None r2 by (simp add: deduce_steps_def case_prod_beta good_def)
    next
      case x2: None
      obtain x3 kb3 v3 where r3: "std_rules rec (rules kb2) ?qe q kb2 v2 = Inr (x3, kb3, v3)"
        using std_rules_total [OF recp rect fin ok2 wf2 c2, of "rules kb2" ?qe q]
        by (auto simp: good_def)
      have p3: "post N ?K kb2 v2 kb3 v3" using std_rules_post [OF recp ok2 r3] .
      have ok3: "names_ok N kb3" using post_names_ok [OF p3 ok2] .
      have wf3: "kb_wf kb3" using post_wf [OF p3 wf2] .
      have c3: "card (?K - v3) + card N < n" using post_card [OF fin p3 c2] .
      show ?thesis
      proof (cases x3)
        case (Some res)
        then show ?thesis using None r2 x2 r3
          by (simp add: deduce_steps_def case_prod_beta good_def)
      next
        case x3: None
        show ?thesis
        proof (cases "predicate q = ''is'' \<or> predicate q = ''part of''")
          case False
          then show ?thesis using None r2 x2 r3 x3
            by (simp add: deduce_steps_def case_prod_beta good_def)
        next
          case True
          obtain x4 kb4 v4 where r4:
            "trans_facts rec (zip (fact_encodings kb3) (facts kb3)) q kb3 v3 = Inr (x4, kb4, v4)"
            using trans_facts_total [OF recp rect fin q ok3 wf3 zip_objects_in [OF ok3] c3]
            by (auto simp: good_def)
          show ?thesis using None r2 x2 r3 x3 True r4
            by (cases x4) (simp_all add: deduce_steps_def case_prod_beta good_def)
        qed
      qed
    qed
  qed
qed

lemma deduce_rec_total: "finite N \<Longrightarrow> rec_total N n (deduce_rec n)"
proof (induction n)
  case 0
  then show ?case by (simp add: rec_total_def)
next
  case (Suc n)
  have fin: "finite N" by fact
  have IH: "rec_total N n (deduce_rec n)" using Suc by simp
  show ?case unfolding rec_total_def
  proof (intro allI impI)
    fix kb q v
    assume ok: "names_ok N kb" and wf: "kb_wf kb" and q: "fact_in N q"
      and c: "card (keys_of N - v) + card N < Suc n"
    let ?K = "keys_of N"
    show "good (deduce_rec (Suc n) kb q v)"
    proof (cases "str_fact q \<in> v")
      case True
      then show ?thesis by (simp add: good_def)
    next
      case nv: False
      let ?v1 = "insert (str_fact q) v"
      have kin: "str_fact q \<in> ?K" using q by (rule str_fact_key)
      have lt: "card (?K - ?v1) < card (?K - v)"
        using finite_keys_of [OF fin] kin nv by (intro card_Diff_insert_less) auto
      have c1: "card (?K - ?v1) + card N < n" using lt c by simp
      show ?thesis
      proof (cases "predicate q = ''is'' \<and> subject q = object q")
        case True
        then show ?thesis using nv by (simp add: good_def)
      next
        case ni: False
        let ?ch = "if predicate q = ''is'' then universal_chain n kb (subject q) (object q) {}
                   else (Inr None, kb, {})"
        obtain co kb1 cv where ch: "?ch = (co, kb1, cv)"
          by (cases ?ch) auto
        have r1: "reach N kb kb1"
        proof (cases "predicate q = ''is''")
          case True
          then have "universal_chain n kb (subject q) (object q) {} = (co, kb1, cv)"
            using ch by simp
          moreover have "subject q \<in> N" using q by (simp add: fact_in_def)
          ultimately have "post N N kb {} kb1 cv"
            using universal_chain_post [OF ok] by blast
          then show ?thesis by (simp add: post_def)
        next
          case False
          then show ?thesis using ch by (simp add: reach_refl)
        qed
        have ok1: "names_ok N kb1" using reach_names_ok [OF r1 ok] .
        have wf1: "kb_wf kb1" using reach_wf [OF r1 wf] .
        have st: "good (deduce_steps (deduce_rec n) q kb1 ?v1)"
          using deduce_steps_total [OF deduce_rec_post IH fin q ok1 wf1 c1] .
        show ?thesis
        proof (cases "\<exists>chain. co = Inr (Some chain) \<and> chain \<noteq> []")
          case True
          then show ?thesis using nv ni ch by (auto simp: Let_def good_def)
        next
          case False
          then have "deduce_rec (Suc n) kb q v = deduce_steps (deduce_rec n) q kb1 ?v1"
            using nv ni ch by (auto simp: Let_def split: sum.splits option.splits)
          then show ?thesis using st by simp
        qed
      qed
    qed
  qed
qed

definition enough_depth :: "KnowledgeBase \<Rightarrow> Fact \<Rightarrow> nat" where
  "enough_depth kb q = card (keys_of (universe kb q)) + card (universe kb q) + 1"

lemma deduce_total:
  assumes wf: "kb_wf kb" and m: "enough_depth kb q \<le> m"
  shows "\<exists>r kb'. deduce m kb q = Inr (r, kb')"
proof -
  let ?N = "universe kb q"
  have "card (keys_of ?N - {}) + card ?N < m" using m by (simp add: enough_depth_def)
  then obtain r kb' v' where "deduce_rec m kb q {} = Inr (r, kb', v')"
    using rec_totalD [OF deduce_rec_total [OF finite_universe] universe_names_ok wf universe_fact_in]
    by blast
  then show ?thesis by (simp add: deduce_def)
qed

section \<open>Example knowledge bases\<close>

definition mk_fact :: "string \<Rightarrow> string \<Rightarrow> string \<Rightarrow> Fact" where
  "mk_fact s p ob = \<lparr>subject = s, predicate = p, object = ob\<rparr>"

definition with_fact :: "Fact \<Rightarrow> KnowledgeBase \<Rightarrow> KnowledgeBase" where
  "with_fact f kb = snd (add_fact f kb)"

definition with_rule :: "Rule \<Rightarrow> KnowledgeBase \<Rightarrow> KnowledgeBase" where
  "with_rule r kb = (case add_rule r kb of Inr (er, kb') \<Rightarrow> kb' | Inl err \<Rightarrow> kb)"

definition empty_kb :: KnowledgeBase where
  "empty_kb = KnowledgeBase_init PrimeEncoder_init"

definition demo_kb :: KnowledgeBase where
  "demo_kb =
     with_rule \<lparr>conditions = [mk_fact ''_x_'' ''is'' ''human'', mk_fact ''_x_'' ''is'' ''philosopher''],
                conclusion = mk_fact ''_x_'' ''is'' ''wise'', type = ''standard'',
                category = None, property = None, capability = None\<rparr>
    (with_fact (mk_fact ''socrates'' ''is'' ''philosopher'')
    (with_rule (create_capability_rule ''bird'' ''fly'')
    (with_rule (create_universal_rule ''mammal'' ''animal'')
    (with_rule (create_universal_rule ''human'' ''mortal'')
    (with_fact (mk_fact ''human'' ''is'' ''mammal'')
    (with_fact (mk_fact ''plato'' ''is'' ''human'')
    (with_fact (mk_fact ''socrates'' ''is'' ''human'') empty_kb)))))))"

definition cycle_kb :: KnowledgeBase where
  "cycle_kb =
     with_rule (create_universal_rule ''B'' ''A'')
    (with_rule (create_universal_rule ''A'' ''B'') empty_kb)"

definition hilbert_kb :: KnowledgeBase where
  "hilbert_kb =
     with_fact (mk_fact ''Hilbert_spaces'' ''is'' ''normed_spaces'')
    (with_rule (create_universal_rule ''inner_product_spaces'' ''normed_spaces'')
    (with_rule (create_universal_rule ''Hilbert_spaces'' ''inner_product_spaces'') empty_kb))"

definition banach_kb :: KnowledgeBase where
  "banach_kb = with_rule (create_universal_rule ''Hilbert_spaces'' ''Banach_spaces'') empty_kb"

definition chain_name :: "nat \<Rightarrow> string" where
  "chain_name i = replicate (Suc i) CHR ''c''"

definition chain_fact :: "nat \<Rightarrow> Fact" where
  "chain_fact i = mk_fact (chain_name i) ''is'' (chain_name (Suc i))"

definition chain_store :: "nat \<Rightarrow> KnowledgeBase" where
  "chain_store n = fold with_fact (map chain_fact [0..<n]) empty_kb"

definition chain_query :: "nat \<Rightarrow> Fact" where
  "chain_query n = mk_fact (chain_name 0) ''is'' (chain_name n)"

section \<open>The graph of universal rules\<close>

text \<open>
  \<open>edge kb x y\<close>: some universal rule of \<open>kb\<close> has the prime of \<open>x\<close> (lower-cased, as
  \<open>get_prime\<close> looks it up) as its category and a property prime registered under the
  non-empty name \<open>y\<close>. These are the steps \<open>_universal_chain\<close> follows.
\<close>

definition edge :: "KnowledgeBase \<Rightarrow> string \<Rightarrow> string \<Rightarrow> bool" where
  "edge kb x y =
     (\<exists>cat prp pred ce cc.
        UCRule Universal cat prp pred ce cc \<in> set (rules kb) \<and>
        map_of (concept_to_prime (encoder kb)) (lower x) = Some cat \<and>
        map_of (prime_to_concept (encoder kb)) prp = Some y \<and> y \<noteq> [])"

lemma get_prime_c2p_new:
  assumes wf: "enc_wf e" and old: "map_of (concept_to_prime e) k = None"
    and new: "map_of (concept_to_prime (snd (get_prime c e))) k = Some p"
  shows "p \<notin> fst ` set (prime_to_concept e)"
proof (cases "map_of (concept_to_prime e) (lower c)")
  case None
  have a: "fst (assign_prime (lower c) e) \<notin> fst ` set (prime_to_concept e)"
    and b: "concept_to_prime (snd (assign_prime (lower c) e))
             = concept_to_prime e @ [(lower c, fst (assign_prime (lower c) e))]"
    using assign_prime_wf [OF wf None lower_idem] by auto
  have "map_of (concept_to_prime e @ [(lower c, fst (assign_prime (lower c) e))]) k = Some p"
    using new b by (simp add: get_prime_new [OF None])
  then have "p = fst (assign_prime (lower c) e)"
    using old by (auto simp: map_add_def split: if_splits)
  then show ?thesis using a by simp
next
  case (Some q)
  then show ?thesis using old new by (simp add: get_prime_known)
qed

lemma rule_primes_registered:
  "kb_wf kb \<Longrightarrow> UCRule kind cat prp pred ce cc \<in> set (rules kb) \<Longrightarrow>
   cat \<in> fst ` set (prime_to_concept (encoder kb)) \<and>
   prp \<in> fst ` set (prime_to_concept (encoder kb))"
proof -
  assume wf: "kb_wf kb" and r: "UCRule kind cat prp pred ce cc \<in> set (rules kb)"
  have "rule_wf (encoder kb) (UCRule kind cat prp pred ce cc)"
    using wf r by (auto simp: kb_wf_def list_all_iff)
  then show ?thesis by (simp add: rule_wf_def)
qed

lemma edge_get_prime:
  assumes wf: "kb_wf kb"
  shows "edge (snd (kb_get_prime c kb)) x y = edge kb x y"
proof -
  let ?e = "encoder kb" and ?e' = "snd (get_prime c (encoder kb))"
  have ewf: "enc_wf ?e" using wf by (simp add: kb_wf_def)
  have le: "map_of (concept_to_prime ?e) \<subseteq>\<^sub>m map_of (concept_to_prime ?e')"
    using get_prime_c2p by blast
  have cat_iff: "map_of (concept_to_prime ?e') (lower x) = Some cat
                   \<longleftrightarrow> map_of (concept_to_prime ?e) (lower x) = Some cat"
    if "cat \<in> fst ` set (prime_to_concept ?e)" for cat
  proof
    assume a: "map_of (concept_to_prime ?e') (lower x) = Some cat"
    show "map_of (concept_to_prime ?e) (lower x) = Some cat"
    proof (cases "map_of (concept_to_prime ?e) (lower x)")
      case None
      then show ?thesis using get_prime_c2p_new [OF ewf None a] that by simp
    next
      case (Some p)
      then have "map_of (concept_to_prime ?e') (lower x) = Some p"
        using le by (metis domI map_le_def)
      then show ?thesis using a Some by simp
    qed
  next
    assume "map_of (concept_to_prime ?e) (lower x) = Some cat"
    then show "map_of (concept_to_prime ?e') (lower x) = Some cat"
      using le by (metis domI map_le_def)
  qed
  have "(UCRule Universal cat prp pred ce cc \<in> set (rules kb) \<and>
         map_of (concept_to_prime ?e') (lower x) = Some cat \<and>
         map_of (prime_to_concept ?e') prp = Some y \<and> y \<noteq> [])
      = (UCRule Universal cat prp pred ce cc \<in> set (rules kb) \<and>
         map_of (concept_to_prime ?e) (lower x) = Some cat \<and>
         map_of (prime_to_concept ?e) prp = Some y \<and> y \<noteq> [])" for cat prp pred ce cc
  proof (cases "UCRule Universal cat prp pred ce cc \<in> set (rules kb)")
    case True
    have reg: "cat \<in> fst ` set (prime_to_concept ?e)" "prp \<in> fst ` set (prime_to_concept ?e)"
      using rule_primes_registered [OF wf True] by auto
    show ?thesis using cat_iff [OF reg(1)] get_prime_p2c_lookup [OF ewf reg(2), of c] by simp
  next
    case False
    then show ?thesis by simp
  qed
  then show ?thesis unfolding edge_def by (simp add: kb_get_prime_eq)
qed

lemma reach_edge: "reach N kb kb' \<Longrightarrow> kb_wf kb \<Longrightarrow> edge kb' x y = edge kb x y"
proof (induction rule: reach.induct)
  case (reach_refl kb)
  then show ?case by simp
next
  case (reach_step kb kb' c)
  have "kb_wf kb'" using reach_wf [OF reach_step.hyps(1) reach_step.prems] .
  then show ?case using edge_get_prime reach_step.IH [OF reach_step.prems] by simp
qed


section \<open>The chain search is a depth-first search of that graph\<close>

definition closed_in :: "(string \<Rightarrow> string \<Rightarrow> bool) \<Rightarrow> string \<Rightarrow> string set \<Rightarrow> string set \<Rightarrow> bool" where
  "closed_in E t v v' = (\<forall>x y. x \<in> v' \<and> x \<notin> v \<and> E x y \<longrightarrow> y \<in> v' \<and> y \<noteq> t)"

definition is_chain :: "(string \<Rightarrow> string \<Rightarrow> bool) \<Rightarrow> string \<Rightarrow> string \<Rightarrow> string list \<Rightarrow> bool" where
  "is_chain E s t ch = (ch \<noteq> [] \<and> hd ch = s \<and> last ch = t \<and> successively E ch)"

definition chain_ok ::
  "(string \<Rightarrow> string \<Rightarrow> bool) \<Rightarrow> string \<Rightarrow> string \<Rightarrow> string set \<Rightarrow> string list option \<Rightarrow> string set \<Rightarrow> bool" where
  "chain_ok E s t v res v' =
     (case res of Some ch \<Rightarrow> is_chain E s t ch
      | None \<Rightarrow> s \<noteq> t \<and> s \<in> v' \<and> closed_in E t v v')"

definition chain_spec ::
  "KnowledgeBase \<Rightarrow> string set \<Rightarrow> string \<Rightarrow>
   (KnowledgeBase \<Rightarrow> string \<Rightarrow> string \<Rightarrow> string set \<Rightarrow> chain_run) \<Rightarrow> bool" where
  "chain_spec kb0 N t rec =
     (\<forall>kb s v res kb' v'. reach N kb0 kb \<longrightarrow> s \<in> N \<longrightarrow> rec kb s t v = (Inr res, kb', v') \<longrightarrow>
        chain_ok (edge kb0) s t v res v')"

lemma chain_specD:
  "chain_spec kb0 N t rec \<Longrightarrow> reach N kb0 kb \<Longrightarrow> s \<in> N \<Longrightarrow>
   rec kb s t v = (Inr res, kb', v') \<Longrightarrow> chain_ok (edge kb0) s t v res v'"
  unfolding chain_spec_def by blast

lemma closed_in_refl: "closed_in E t v v"
  by (auto simp: closed_in_def)

definition succ_done ::
  "KnowledgeBase \<Rightarrow> int \<Rightarrow> EncodedRule list \<Rightarrow> string \<Rightarrow> string set \<Rightarrow> bool" where
  "succ_done kb0 sp rs t v' =
     (\<forall>prp pred ce cc y.
        UCRule Universal sp prp pred ce cc \<in> set rs \<and>
        map_of (prime_to_concept (encoder kb0)) prp = Some y \<and> y \<noteq> []
        \<longrightarrow> y \<in> v' \<and> y \<noteq> t)"

lemma succ_done_Nil: "succ_done kb0 sp [] t v'"
  by (simp add: succ_done_def)

lemma succ_done_Cons:
  assumes "succ_done kb0 sp rs t v'"
    and "\<And>prp pred ce cc y. r = UCRule Universal sp prp pred ce cc \<Longrightarrow>
           map_of (prime_to_concept (encoder kb0)) prp = Some y \<Longrightarrow> y \<noteq> [] \<Longrightarrow> y \<in> v' \<and> y \<noteq> t"
  shows "succ_done kb0 sp (r # rs) t v'"
  unfolding succ_done_def
proof (intro allI impI)
  fix prp pred ce cc y
  assume a: "UCRule Universal sp prp pred ce cc \<in> set (r # rs) \<and>
             map_of (prime_to_concept (encoder kb0)) prp = Some y \<and> y \<noteq> []"
  show "y \<in> v' \<and> y \<noteq> t"
  proof (cases "r = UCRule Universal sp prp pred ce cc")
    case True
    then show ?thesis using assms(2) a by blast
  next
    case False
    then have "UCRule Universal sp prp pred ce cc \<in> set rs" using a by auto
    then show ?thesis using assms(1) a unfolding succ_done_def by blast
  qed
qed

lemma closed_in_trans:
  "closed_in E t v v1 \<Longrightarrow> closed_in E t v1 v2 \<Longrightarrow> v1 \<subseteq> v2 \<Longrightarrow> closed_in E t v v2"
  unfolding closed_in_def by blast

lemma chain_rules_spec:
  assumes wf0: "kb_wf kb0" and ok0: "names_ok N kb0"
    and spec: "chain_spec kb0 N t rec"
    and recp: "\<And>kb s v c kb' v'. names_ok N kb \<Longrightarrow> s \<in> N \<Longrightarrow>
                  rec kb s t v = (c, kb', v') \<Longrightarrow> post N N kb v kb' v'"
  shows "reach N kb0 kb \<Longrightarrow> set rs \<subseteq> set (rules kb0) \<Longrightarrow>
         map_of (concept_to_prime (encoder kb)) (lower subj) = Some sp \<Longrightarrow>
         chain_rules rec rs subj sp t kb v = (Inr res, kb', v') \<Longrightarrow>
         (case res of
            Some ch \<Rightarrow> is_chain (edge kb0) subj t ch
          | None \<Rightarrow> closed_in (edge kb0) t v v' \<and>
              succ_done kb0 sp rs t v')"
proof (induction rs arbitrary: kb v)
  case Nil
  then show ?case by (simp add: closed_in_refl succ_done_Nil)
next
  case (Cons r rs)
  have rs: "set rs \<subseteq> set (rules kb0)" and rin: "r \<in> set (rules kb0)"
    using Cons.prems(2) by auto
  have ok: "names_ok N kb" using reach_names_ok [OF Cons.prems(1) ok0] .
  have wf: "kb_wf kb" using reach_wf [OF Cons.prems(1) wf0] .
  have ru: "rules kb = rules kb0"
    using reach_same_store [OF Cons.prems(1)] by (simp add: same_store_def)
  have look: "map_of (prime_to_concept (encoder kb)) prp = map_of (prime_to_concept (encoder kb0)) prp"
    if "UCRule kind cat prp pred ce cc \<in> set (rules kb0)" for kind cat prp pred ce cc
    using reach_p2c_lookup [OF Cons.prems(1) wf0] rule_primes_registered [OF wf0 that] by blast
  let ?skip = "chain_rules rec (r # rs) subj sp t kb v = chain_rules rec rs subj sp t kb v"
  have skip_case: ?case
    if sk: ?skip
      and nw: "\<And>prp pred ce cc y. r = UCRule Universal sp prp pred ce cc \<Longrightarrow>
                 map_of (prime_to_concept (encoder kb0)) prp = Some y \<Longrightarrow> y \<noteq> [] \<Longrightarrow> False"
  proof -
    have run: "chain_rules rec rs subj sp t kb v = (Inr res, kb', v')"
      using Cons.prems(4) sk by simp
    have IH: "case res of Some ch \<Rightarrow> is_chain (edge kb0) subj t ch
              | None \<Rightarrow> closed_in (edge kb0) t v v' \<and>
                  succ_done kb0 sp rs t v'"
      using Cons.IH [OF Cons.prems(1) rs Cons.prems(3) run] .
    show ?thesis
    proof (cases res)
      case None
      have "succ_done kb0 sp (r # rs) t v'"
        using IH None nw by (intro succ_done_Cons) auto
      then show ?thesis using IH None by simp
    next
      case (Some ch)
      then show ?thesis using IH by simp
    qed
  qed
  show ?case
  proof (cases r)
    case (StdRule ces cc)
    then show ?thesis by (intro skip_case) auto
  next
    case (UCRule kind cat prp pred ce cc)
    have lk: "map_of (prime_to_concept (encoder kb)) prp = map_of (prime_to_concept (encoder kb0)) prp"
      using look rin UCRule by blast
    show ?thesis
    proof (cases "kind = Universal \<and> cat = sp \<and>
                  (\<exists>x. map_of (prime_to_concept (encoder kb)) prp = Some x \<and> x \<noteq> [])")
      case False
      have ?skip using False UCRule by (auto split: option.splits)
      then show ?thesis using False UCRule lk by (intro skip_case) auto
    next
      case True
      then obtain x where x: "kind = Universal" "cat = sp"
        "map_of (prime_to_concept (encoder kb)) prp = Some x" "x \<noteq> []" by blast
      have xN: "x \<in> N" using p2c_lookup_in [OF ok x(3)] .
      have ed: "edge kb0 subj x"
      proof -
        have "edge kb subj x"
          unfolding edge_def using rin UCRule x Cons.prems(3) ru by auto
        then show ?thesis using reach_edge [OF Cons.prems(1) wf0] by simp
      qed
      obtain co kb1 v1 where r1: "rec kb x t v = (Inr co, kb1, v1)"
        using Cons.prems(4) UCRule x
        by (cases "rec kb x t v"; cases "fst (rec kb x t v)") auto
      have p1: "post N N kb v kb1 v1" using recp [OF ok xN r1] .
      have ck: "chain_ok (edge kb0) x t v co v1"
        using chain_specD [OF spec Cons.prems(1) xN r1] .
      have re1: "reach N kb0 kb1" using p1 Cons.prems(1) reach_trans by (auto simp: post_def)
      have sp1: "map_of (concept_to_prime (encoder kb1)) (lower subj) = Some sp"
      proof -
        have "map_of (concept_to_prime (encoder kb)) \<subseteq>\<^sub>m map_of (concept_to_prime (encoder kb1))"
          using p1 reach_c2p by (auto simp: post_def)
        then show ?thesis using Cons.prems(3) by (metis domI map_le_def)
      qed
      show ?thesis
      proof (cases co)
        case (Some ch)
        have ch: "is_chain (edge kb0) x t ch" using ck Some by (simp add: chain_ok_def)
        then have ne: "ch \<noteq> []" by (simp add: is_chain_def)
        have res: "res = Some (subj # ch)"
          using Cons.prems(4) UCRule x r1 Some ne by simp
        have "is_chain (edge kb0) subj t (subj # ch)"
          using ch ed by (cases ch) (auto simp: is_chain_def)
        then show ?thesis using res by simp
      next
        case None
        have f1: "x \<noteq> t" "x \<in> v1" "closed_in (edge kb0) t v v1"
          using ck None by (auto simp: chain_ok_def)
        have run: "chain_rules rec rs subj sp t kb1 v1 = (Inr res, kb', v')"
          using Cons.prems(4) UCRule x r1 None by simp
        have IH: "case res of Some ch \<Rightarrow> is_chain (edge kb0) subj t ch
              | None \<Rightarrow> closed_in (edge kb0) t v1 v' \<and>
                  succ_done kb0 sp rs t v'"
          using Cons.IH [OF re1 rs sp1 run] .
        have ok1: "names_ok N kb1" using post_names_ok [OF p1 ok] .
        have sub: "v1 \<subseteq> v'"
          using chain_rules_post [where rec = rec and N = N, OF recp ok1 run]
          by (auto simp: post_def)
        show ?thesis
        proof (cases res)
          case (Some ch)
          then show ?thesis using IH by simp
        next
          case rn: None
          have c: "closed_in (edge kb0) t v v'"
            using f1(3) IH rn sub closed_in_trans by auto
          have "y \<in> v' \<and> y \<noteq> t"
            if "r = UCRule Universal sp prp' pred' ce' cc'"
              "map_of (prime_to_concept (encoder kb0)) prp' = Some y" for prp' pred' ce' cc' y
          proof -
            have "y = x" using that UCRule lk x(3) by simp
            then show ?thesis using f1 sub by auto
          qed
          then have "succ_done kb0 sp (r # rs) t v'"
            using IH rn by (intro succ_done_Cons) auto
          then show ?thesis using c rn by simp
        qed
      qed
    qed
  qed
qed


lemma universal_chain_spec:
  assumes wf0: "kb_wf kb0" and ok0: "names_ok N kb0"
  shows "chain_spec kb0 N t (universal_chain n)"
proof (induction n)
  case 0
  then show ?case by (simp add: chain_spec_def)
next
  case (Suc n)
  show ?case unfolding chain_spec_def
  proof (intro allI impI)
    fix kb s v res kb' v'
    assume re: "reach N kb0 kb" and sN: "s \<in> N"
      and run: "universal_chain (Suc n) kb s t v = (Inr res, kb', v')"
    let ?E = "edge kb0"
    show "chain_ok ?E s t v res v'"
    proof (cases "s = t")
      case True
      then have "res = Some [s]" using run by simp
      then show ?thesis using True by (simp add: chain_ok_def is_chain_def)
    next
      case st: False
      show ?thesis
      proof (cases "s \<in> v")
        case True
        then have "res = None \<and> v' = v" using run st by simp
        then show ?thesis using st True by (simp add: chain_ok_def closed_in_refl)
      next
        case sv: False
        let ?kb1 = "snd (kb_get_prime s kb)" and ?sp = "fst (kb_get_prime s kb)"
        have ok: "names_ok N kb" using reach_names_ok [OF re ok0] .
        have wf: "kb_wf kb" using reach_wf [OF re wf0] .
        have re1: "reach N kb0 ?kb1" using re sN by (rule reach_step)
        have ok1: "names_ok N ?kb1" using reach_names_ok [OF re1 ok0] .
        have ru1: "rules ?kb1 = rules kb0"
          using reach_same_store [OF re1] by (simp add: same_store_def)
        have sp1: "map_of (concept_to_prime (encoder ?kb1)) (lower s) = Some ?sp"
          using get_prime_c2p [of s "encoder kb"] by (simp add: kb_get_prime_eq)
        have loop: "chain_rules (universal_chain n) (rules ?kb1) s ?sp t ?kb1 (insert s v)
                      = (Inr res, kb', v')"
          using run st sv by (simp add: case_prod_beta)
        have recp: "\<And>kb s v c kb' v'. names_ok N kb \<Longrightarrow> s \<in> N \<Longrightarrow>
                      universal_chain n kb s t v = (c, kb', v') \<Longrightarrow> post N N kb v kb' v'"
          using universal_chain_post by blast
        have L: "case res of Some ch \<Rightarrow> is_chain ?E s t ch
                 | None \<Rightarrow> closed_in ?E t (insert s v) v' \<and> succ_done kb0 ?sp (rules ?kb1) t v'"
          using chain_rules_spec [OF wf0 ok0 Suc.IH recp re1 _ sp1 loop] ru1 by simp
        have sub: "insert s v \<subseteq> v'"
          using chain_rules_post [where rec = "universal_chain n" and N = N, OF recp ok1 loop]
          by (auto simp: post_def)
        show ?thesis
        proof (cases res)
          case (Some ch)
          then show ?thesis using L by (simp add: chain_ok_def)
        next
          case None
          have cl: "closed_in ?E t (insert s v) v'" and sd: "succ_done kb0 ?sp (rules kb0) t v'"
            using L None ru1 by auto
          have succs: "y \<in> v' \<and> y \<noteq> t" if e: "?E s y" for y
          proof -
            have "edge ?kb1 s y" using e reach_edge [OF re1 wf0] by simp
            then obtain cat prp pred ce cc where r:
              "UCRule Universal cat prp pred ce cc \<in> set (rules ?kb1)"
              "map_of (concept_to_prime (encoder ?kb1)) (lower s) = Some cat"
              "map_of (prime_to_concept (encoder ?kb1)) prp = Some y" "y \<noteq> []"
              unfolding edge_def by blast
            have cat: "cat = ?sp" using r(2) sp1 by simp
            have rin: "UCRule Universal cat prp pred ce cc \<in> set (rules kb0)" using r(1) ru1 by simp
            have "map_of (prime_to_concept (encoder ?kb1)) prp
                    = map_of (prime_to_concept (encoder kb0)) prp"
              using reach_p2c_lookup [OF re1 wf0] rule_primes_registered [OF wf0 rin] by blast
            then have "map_of (prime_to_concept (encoder kb0)) prp = Some y" using r(3) by simp
            then show ?thesis using sd rin cat r(4) unfolding succ_done_def by blast
          qed
          have "closed_in ?E t v v'"
            unfolding closed_in_def
          proof (intro allI impI)
            fix x y assume a: "x \<in> v' \<and> x \<notin> v \<and> ?E x y"
            show "y \<in> v' \<and> y \<noteq> t"
            proof (cases "x = s")
              case True
              then show ?thesis using succs a by simp
            next
              case False
              then show ?thesis using cl a unfolding closed_in_def by blast
            qed
          qed
          then show ?thesis using None st sub by (simp add: chain_ok_def)
        qed
      qed
    qed
  qed
qed

lemma closed_in_reach:
  assumes cl: "closed_in E t {} v'" and s: "s \<in> v'" and r: "E\<^sup>+\<^sup>+ s z"
  shows "z \<in> v' \<and> z \<noteq> t"
  using r
proof (induction rule: tranclp_induct)
  case (base y)
  then show ?case using cl s unfolding closed_in_def by blast
next
  case (step y z)
  then show ?case using cl unfolding closed_in_def by blast
qed

lemma universal_chain_complete:
  assumes wf: "kb_wf kb" and ok: "names_ok N kb" and sN: "s \<in> N"
    and link: "(edge kb)\<^sup>+\<^sup>+ s t"
    and run: "universal_chain n kb s t {} = (Inr res, kb', v')"
  shows "\<exists>ch. res = Some ch \<and> is_chain (edge kb) s t ch"
proof (cases res)
  case None
  have "chain_ok (edge kb) s t {} res v'"
    using chain_specD [OF universal_chain_spec [OF wf ok] reach_refl sN run] .
  then have "s \<in> v'" "closed_in (edge kb) t {} v'" using None by (auto simp: chain_ok_def)
  then have "t \<noteq> t" using closed_in_reach link by blast
  then show ?thesis by simp
next
  case (Some ch)
  have "chain_ok (edge kb) s t {} res v'"
    using chain_specD [OF universal_chain_spec [OF wf ok] reach_refl sN run] .
  then show ?thesis using Some by (simp add: chain_ok_def)
qed

lemma deduce_chain:
  assumes wf: "kb_wf kb" and p: "predicate q = ''is''" and ne: "subject q \<noteq> object q"
    and link: "(edge kb)\<^sup>+\<^sup>+ (subject q) (object q)"
    and m: "card (universe kb q) + 1 < m"
  shows "\<exists>ch kb'. deduce m kb q = Inr (chain_result ch, kb') \<and>
                  is_chain (edge kb) (subject q) (object q) ch"
proof -
  let ?N = "universe kb q"
  obtain n where n: "m = Suc n" using m by (cases m) auto
  have sN: "subject q \<in> ?N" using universe_fact_in [of kb q] by (simp add: fact_in_def)
  have "card (?N - {}) < n" using m n by simp
  then have "\<not> isl (fst (universal_chain n kb (subject q) (object q) {}))"
    using universal_chain_total [OF finite_universe universe_names_ok sN] by blast
  then obtain res kb' v' where run: "universal_chain n kb (subject q) (object q) {} = (Inr res, kb', v')"
    by (cases "universal_chain n kb (subject q) (object q) {}";
        cases "fst (universal_chain n kb (subject q) (object q) {})") auto
  obtain ch where ch: "res = Some ch" "is_chain (edge kb) (subject q) (object q) ch"
    using universal_chain_complete [OF wf universe_names_ok sN link run] by blast
  have "ch \<noteq> []" using ch(2) by (simp add: is_chain_def)
  then have "deduce m kb q = Inr (chain_result ch, kb')"
    using n p ne run ch(1) by (simp add: deduce_def)
  then show ?thesis using ch(2) by blast
qed

section \<open>What a query adds to the registry\<close>

lemma c2p_keys_mono:
  "reach N kb kb' \<Longrightarrow>
   fst ` set (concept_to_prime (encoder kb)) \<subseteq> fst ` set (concept_to_prime (encoder kb'))"
proof -
  assume "reach N kb kb'"
  then have "dom (map_of (concept_to_prime (encoder kb)))
               \<subseteq> dom (map_of (concept_to_prime (encoder kb')))"
    using reach_c2p by (intro map_le_implies_dom_le)
  then show ?thesis by (simp add: dom_map_of_conv_image_fst)
qed

lemma kb_get_prime_registered:
  "lower c \<in> fst ` set (concept_to_prime (encoder (snd (kb_get_prime c kb))))"
proof -
  have "map_of (concept_to_prime (encoder (snd (kb_get_prime c kb)))) (lower c)
          = Some (fst (get_prime c (encoder kb)))"
    using get_prime_c2p [of c "encoder kb"] by (simp add: kb_get_prime_eq)
  then show ?thesis by (metis domI dom_map_of_conv_image_fst)
qed

lemma encode_fact_registered:
  "{lower (subject q), lower (predicate q), lower (object q)}
     \<subseteq> fst ` set (concept_to_prime (encoder (snd (encode_fact q kb))))"
proof -
  let ?kb1 = "snd (kb_get_prime (subject q) kb)"
  let ?kb2 = "snd (kb_get_prime (predicate q) ?kb1)"
  let ?kb3 = "snd (kb_get_prime (object q) ?kb2)"
  have 1: "lower (subject q) \<in> fst ` set (concept_to_prime (encoder ?kb1))"
    and 2: "lower (predicate q) \<in> fst ` set (concept_to_prime (encoder ?kb2))"
    and 3: "lower (object q) \<in> fst ` set (concept_to_prime (encoder ?kb3))"
    by (rule kb_get_prime_registered, rule kb_get_prime_registered, rule kb_get_prime_registered)
  have "reach UNIV ?kb1 ?kb2" by (rule reach_one) simp
  then have m12: "fst ` set (concept_to_prime (encoder ?kb1)) \<subseteq> fst ` set (concept_to_prime (encoder ?kb2))"
    by (rule c2p_keys_mono)
  have "reach UNIV ?kb2 ?kb3" by (rule reach_one) simp
  then have m23: "fst ` set (concept_to_prime (encoder ?kb2)) \<subseteq> fst ` set (concept_to_prime (encoder ?kb3))"
    by (rule c2p_keys_mono)
  show ?thesis unfolding encode_fact_eq using 1 2 3 m12 m23 by blast
qed

lemma names_ok_UNIV: "names_ok UNIV kb"
  by (simp add: names_ok_def)

lemma universal_chain_registers:
  assumes run: "universal_chain n kb s t v = (Inr res, kb', v')" and st: "s \<noteq> t" and sv: "s \<notin> v"
  shows "lower s \<in> fst ` set (concept_to_prime (encoder kb'))"
proof (cases n)
  case 0
  then show ?thesis using run by simp
next
  case (Suc k)
  let ?kb1 = "snd (kb_get_prime s kb)" and ?sp = "fst (kb_get_prime s kb)"
  have loop: "chain_rules (universal_chain k) (rules ?kb1) s ?sp t ?kb1 (insert s v)
                = (Inr res, kb', v')"
    using run Suc st sv by (simp add: case_prod_beta)
  have recp: "\<And>kb s v c kb' v'. names_ok UNIV kb \<Longrightarrow> s \<in> UNIV \<Longrightarrow>
                universal_chain k kb s t v = (c, kb', v') \<Longrightarrow> post UNIV UNIV kb v kb' v'"
    by (rule universal_chain_post)
  have "post UNIV UNIV ?kb1 (insert s v) kb' v'"
    by (rule chain_rules_post [where rec = "universal_chain k" and N = UNIV, OF recp names_ok_UNIV loop])
  then have r: "reach UNIV ?kb1 kb'" by (simp add: post_def)
  show ?thesis using c2p_keys_mono [OF r] kb_get_prime_registered [of s kb] by blast
qed

lemma successively_last_edge:
  "successively E ch \<Longrightarrow> 2 \<le> length ch \<Longrightarrow> \<exists>x. E x (last ch)"
proof (induction ch)
  case Nil
  then show ?case by simp
next
  case (Cons a ch)
  show ?case
  proof (cases ch)
    case Nil
    then show ?thesis using Cons.prems by simp
  next
    case (Cons b ch')
    show ?thesis
    proof (cases ch')
      case Nil
      then show ?thesis using Cons.prems \<open>ch = b # ch'\<close> by auto
    next
      case (Cons c ch'')
      then have "\<exists>x. E x (last ch)" using Cons.IH Cons.prems \<open>ch = b # ch'\<close> by auto
      then show ?thesis using \<open>ch = b # ch'\<close> by simp
    qed
  qed
qed

lemma is_chain_last_edge: "is_chain E s t ch \<Longrightarrow> s \<noteq> t \<Longrightarrow> \<exists>x. E x t"
proof -
  assume c: "is_chain E s t ch" and ne: "s \<noteq> t"
  have "2 \<le> length ch"
  proof (cases ch)
    case Nil
    then show ?thesis using c by (simp add: is_chain_def)
  next
    case (Cons a ch')
    then show ?thesis using c ne by (cases ch') (auto simp: is_chain_def)
  qed
  then show ?thesis using c successively_last_edge [of E ch] by (auto simp: is_chain_def)
qed

lemma edge_target_registered:
  assumes wf: "kb_wf kb" and e: "edge kb x t"
  shows "t \<in> fst ` set (concept_to_prime (encoder kb)) \<and> lower t = t \<and>
         ''is'' \<in> fst ` set (concept_to_prime (encoder kb))"
proof -
  obtain cat prp pred ce cc where r: "UCRule Universal cat prp pred ce cc \<in> set (rules kb)"
    and l: "map_of (prime_to_concept (encoder kb)) prp = Some t"
    using e unfolding edge_def by blast
  have ewf: "enc_wf (encoder kb)" using wf by (simp add: kb_wf_def)
  have pt: "(prp, t) \<in> set (prime_to_concept (encoder kb))" using l by (rule map_of_SomeD)
  have "concept_to_prime (encoder kb) = map (\<lambda>(p, c). (c, p)) (prime_to_concept (encoder kb))"
    using ewf by (simp add: enc_wf_def)
  moreover have "(t, prp) \<in> (\<lambda>(p, c). (c, p)) ` set (prime_to_concept (encoder kb))"
    using pt by (intro image_eqI [where x = "(prp, t)"]) auto
  ultimately have "(t, prp) \<in> set (concept_to_prime (encoder kb))" by simp
  then have 1: "t \<in> fst ` set (concept_to_prime (encoder kb))" by force
  have "list_all (\<lambda>(p, c). lower c = c) (prime_to_concept (encoder kb))"
    using ewf by (simp add: enc_wf_def)
  then have 2: "lower t = t" using pt by (auto simp: list_all_iff)
  have "rule_wf (encoder kb) (UCRule Universal cat prp pred ce cc)"
    using wf r by (auto simp: kb_wf_def list_all_iff)
  then have 3: "''is'' \<in> fst ` set (concept_to_prime (encoder kb))" by (simp add: rule_wf_def)
  show ?thesis using 1 2 3 by simp
qed

lemma lower_is: "lower ''is'' = ''is''"
  by code_simp

lemma reach_c2p_extends:
  "reach N kb kb' \<Longrightarrow> kb_wf kb \<Longrightarrow>
   \<exists>new. concept_to_prime (encoder kb') = concept_to_prime (encoder kb) @ new"
proof (induction rule: reach.induct)
  case (reach_refl kb)
  then show ?case by simp
next
  case (reach_step kb kb' c)
  have ewf: "enc_wf (encoder kb')"
    using reach_wf [OF reach_step.hyps(1) reach_step.prems] by (simp add: kb_wf_def)
  have "\<exists>ys. concept_to_prime (snd (get_prime c (encoder kb'))) = concept_to_prime (encoder kb') @ ys"
  proof (cases "map_of (concept_to_prime (encoder kb')) (lower c)")
    case None
    then show ?thesis
      using assign_prime_wf [OF ewf None lower_idem] by (simp add: get_prime_new)
  next
    case (Some p)
    then show ?thesis by (simp add: get_prime_known)
  qed
  then show ?case using reach_step.IH [OF reach_step.prems] by (auto simp: kb_get_prime_eq)
qed

lemma enc_wf_bijection:
  "enc_wf e \<Longrightarrow> distinct (map fst (concept_to_prime e)) \<and> distinct (map snd (concept_to_prime e))"
proof -
  assume wf: "enc_wf e"
  have c: "concept_to_prime e = map (\<lambda>(p, c). (c, p)) (prime_to_concept e)"
    using wf by (simp add: enc_wf_def)
  have 1: "map fst (concept_to_prime e) = map snd (prime_to_concept e)"
    unfolding c by (simp add: case_prod_beta comp_def)
  have 2: "map snd (concept_to_prime e) = map fst (prime_to_concept e)"
    unfolding c by (simp add: case_prod_beta comp_def)
  have "distinct (take (next_index e) (primes (prime_gen e)))"
    using wf pg_wf_distinct by (auto simp: enc_wf_def)
  moreover have "map fst (prime_to_concept e) = take (next_index e) (primes (prime_gen e))"
    and "distinct (map snd (prime_to_concept e))"
    using wf by (simp_all add: enc_wf_def)
  ultimately show ?thesis by (simp only: 1 2)
qed

lemma deduce_wf: "kb_wf kb \<Longrightarrow> deduce depth kb q = Inr (r, kb') \<Longrightarrow> kb_wf kb'"
  using deduce_post reach_wf by blast

lemma deduce_registers:
  assumes wf: "kb_wf kb" and ni: "\<not> (predicate q = ''is'' \<and> subject q = object q)"
    and run: "deduce depth kb q = Inr (r, kb')"
  shows "{lower (subject q), lower (predicate q), lower (object q)}
           \<subseteq> fst ` set (concept_to_prime (encoder kb'))"
proof -
  let ?N = "universe kb q"
  obtain v' where rr: "deduce_rec depth kb q {} = Inr (r, kb', v')"
    using run by (auto simp: deduce_def split: option.splits sum.splits)
  obtain n where n: "depth = Suc n" using rr by (cases depth) auto
  have ok: "names_ok ?N kb" by (rule universe_names_ok)
  have q: "fact_in ?N q" by (rule universe_fact_in)
  have sN: "subject q \<in> ?N" using q by (simp add: fact_in_def)
  let ?v1 = "{str_fact q}"
  obtain c kb1 cv where ch:
    "(if predicate q = ''is'' then universal_chain n kb (subject q) (object q) {}
      else (Inr None, kb, {})) = (c, kb1, cv)"
    by (cases "if predicate q = ''is'' then universal_chain n kb (subject q) (object q) {}
               else (Inr None, kb, {})") auto
  have r1: "reach ?N kb kb1"
  proof (cases "predicate q = ''is''")
    case True
    then have "universal_chain n kb (subject q) (object q) {} = (c, kb1, cv)"
      using ch by simp
    then have "post ?N ?N kb {} kb1 cv" using universal_chain_post [OF ok sN] by blast
    then show ?thesis by (simp add: post_def)
  next
    case False
    then show ?thesis using ch by (simp add: reach_refl)
  qed
  have ok1: "names_ok ?N kb1" using reach_names_ok [OF r1 ok] .
  show ?thesis
  proof (cases "\<exists>chain. c = Inr (Some chain) \<and> chain \<noteq> []")
    case True
    then obtain chain where c: "c = Inr (Some chain)" "chain \<noteq> []" by blast
    have kb': "kb' = kb1" using rr n ni ch c by (auto simp: Let_def)
    have p: "predicate q = ''is''" using ch c by (auto split: if_splits)
    then have ne: "subject q \<noteq> object q" using ni by simp
    have uc: "universal_chain n kb (subject q) (object q) {} = (Inr (Some chain), kb1, cv)"
      using ch c p by simp
    have s: "lower (subject q) \<in> fst ` set (concept_to_prime (encoder kb1))"
      using universal_chain_registers [OF uc ne] by simp
    have "chain_ok (edge kb) (subject q) (object q) {} (Some chain) cv"
      using chain_specD [OF universal_chain_spec [OF wf ok] reach_refl sN uc] .
    then have "is_chain (edge kb) (subject q) (object q) chain" by (simp add: chain_ok_def)
    then obtain x where "edge kb x (object q)" using is_chain_last_edge ne by blast
    then have t: "object q \<in> fst ` set (concept_to_prime (encoder kb))" "lower (object q) = object q"
      "''is'' \<in> fst ` set (concept_to_prime (encoder kb))"
      using edge_target_registered [OF wf] by blast+
    have m: "fst ` set (concept_to_prime (encoder kb)) \<subseteq> fst ` set (concept_to_prime (encoder kb1))"
      using r1 by (rule c2p_keys_mono)
    have "lower (predicate q) = ''is''" using p lower_is by simp
    then have "lower (predicate q) \<in> fst ` set (concept_to_prime (encoder kb1))"
      using t(3) m by auto
    moreover have "lower (object q) \<in> fst ` set (concept_to_prime (encoder kb1))"
      using t(1,2) m by auto
    ultimately show ?thesis using s kb' by simp
  next
    case False
    then have st: "deduce_steps (deduce_rec n) q kb1 ?v1 = Inr (r, kb', v')"
      using rr n ni ch by (auto simp: Let_def split: option.splits sum.splits if_splits)
    have "post ?N (keys_of ?N) (snd (encode_fact q kb1)) ?v1 kb' v'"
      using deduce_steps_post_enc [OF deduce_rec_post q ok1 st] .
    then have r2: "reach ?N (snd (encode_fact q kb1)) kb'" by (simp add: post_def)
    show ?thesis using c2p_keys_mono [OF r2] encode_fact_registered [of q kb1] by blast
  qed
qed

section \<open>The example knowledge bases are well formed\<close>

lemma with_fact_wf: "kb_wf kb \<Longrightarrow> kb_wf (with_fact f kb)"
  unfolding with_fact_def by (rule add_fact_wf)

lemma with_rule_wf: "kb_wf kb \<Longrightarrow> kb_wf (with_rule r kb)"
  unfolding with_rule_def using add_rule_wf [of kb r]
  by (cases "add_rule r kb") auto

lemma empty_kb_wf: "kb_wf empty_kb"
  unfolding empty_kb_def by (rule KnowledgeBase_init_wf [OF PrimeEncoder_init_wf])

lemma demo_kb_wf: "kb_wf demo_kb"
  unfolding demo_kb_def by (intro with_fact_wf with_rule_wf empty_kb_wf)

lemma cycle_kb_wf: "kb_wf cycle_kb"
  unfolding cycle_kb_def by (intro with_fact_wf with_rule_wf empty_kb_wf)

lemma hilbert_kb_wf: "kb_wf hilbert_kb"
  unfolding hilbert_kb_def by (intro with_fact_wf with_rule_wf empty_kb_wf)

section \<open>Deduction leaves the stored facts and rules alone\<close>

text \<open>
  Claim C9. Whenever \<open>deduce\<close> returns, the fact list, the list of fact encodings and the
  rule list of the knowledge base are the ones it was called with. (The encoder inside
  the knowledge base is not part of this: see C10.)
\<close>

theorem deduce_store_unchanged:
  assumes "deduce depth kb q = Inr (r, kb')"
  shows "facts kb' = facts kb \<and> fact_encodings kb' = fact_encodings kb \<and> rules kb' = rules kb"
  using reach_same_store [OF deduce_post [OF assms]] by (simp add: same_store_def)

theorem deduce_store_unchanged_witness:
  "\<exists>r kb'. deduce 5 demo_kb (mk_fact ''penguin'' ''can'' ''fly'') = Inr (r, kb') \<and>
     encoder kb' \<noteq> encoder demo_kb \<and>
     facts kb' = facts demo_kb \<and> fact_encodings kb' = fact_encodings demo_kb \<and>
     rules kb' = rules demo_kb"
proof -
  have ev: "case deduce 5 demo_kb (mk_fact ''penguin'' ''can'' ''fly'') of
              Inr (r, kb') \<Rightarrow> next_index (encoder kb') \<noteq> next_index (encoder demo_kb)
            | _ \<Rightarrow> False"
    by code_simp
  then obtain r kb' where run: "deduce 5 demo_kb (mk_fact ''penguin'' ''can'' ''fly'') = Inr (r, kb')"
    and ne: "next_index (encoder kb') \<noteq> next_index (encoder demo_kb)"
    by (auto split: sum.splits)
  have "encoder kb' \<noteq> encoder demo_kb" using ne by auto
  then show ?thesis using deduce_store_unchanged [OF run] run by blast
qed

section \<open>How deep a deduction recurses\<close>

text \<open>
  The search itself is finite. On a well-formed knowledge base (every one built from a fresh
  encoder with \<open>add_fact\<close>, \<open>add_rule\<close> and earlier queries: \<open>empty_kb_wf\<close>,
  \<open>add_fact_wf\<close>, \<open>add_rule_wf\<close>, \<open>deduce_wf\<close>) a query returns a result record as soon as
  the interpreter allows \<open>enough_depth kb q\<close> nested calls, also when the universal rules
  form a cycle: the visited sets stop every walk along a cycle.
\<close>

lemma deduce_returns:
  assumes "kb_wf kb" and "enough_depth kb q \<le> depth"
  shows "\<exists>r kb'. deduce depth kb q = Inr (r, kb')"
  using deduce_total [OF assms] .

lemma deduce_cycle_example:
  "map_sum id (result \<circ> fst) (deduce 6 cycle_kb (mk_fact ''A'' ''is'' ''B'')) = Inr True \<and>
   map_sum id (explanation \<circ> fst) (deduce 6 cycle_kb (mk_fact ''A'' ''is'' ''B''))
     = Inr ''A are b, and b are a, and all a are B''"
  by code_simp

section \<open>Queries on registered names\<close>

definition registered :: "KnowledgeBase \<Rightarrow> string \<Rightarrow> bool" where
  "registered kb x = (lower x \<in> fst ` set (concept_to_prime (encoder kb)))"

definition prime_of :: "KnowledgeBase \<Rightarrow> string \<Rightarrow> int" where
  "prime_of kb x = fst (kb_get_prime x kb)"

definition enc3 :: "int \<Rightarrow> int \<Rightarrow> int \<Rightarrow> ExponentMap" where
  "enc3 a b c = multiply (multiply [(a, 1)] [(b, 1)]) [(c, 1)]"

lemma prime_of_lookup:
  "registered kb x \<Longrightarrow> map_of (concept_to_prime (encoder kb)) (lower x) = Some (prime_of kb x)"
proof -
  assume "registered kb x"
  then obtain p where p: "map_of (concept_to_prime (encoder kb)) (lower x) = Some p"
    unfolding registered_def by (metis domD dom_map_of_conv_image_fst)
  then show ?thesis by (simp add: prime_of_def kb_get_prime_eq get_prime_known)
qed

lemma get_prime_registered_id:
  "registered kb x \<Longrightarrow> get_prime x (encoder kb) = (prime_of kb x, encoder kb)"
  using prime_of_lookup by (rule get_prime_known)

lemma kb_get_prime_registered_id:
  "registered kb x \<Longrightarrow> kb_get_prime x kb = (prime_of kb x, kb)"
  by (simp add: kb_get_prime_def get_prime_registered_id)

lemma encode_fact_registered_id:
  assumes "registered kb (subject f)" "registered kb (predicate f)" "registered kb (object f)"
  shows "encode_fact f kb
           = (enc3 (prime_of kb (subject f)) (prime_of kb (predicate f)) (prime_of kb (object f)), kb)"
  using assms by (simp add: encode_fact_def encode_symbol_def get_prime_registered_id enc3_def)

lemma enc3_distinct:
  "a \<noteq> b \<Longrightarrow> a \<noteq> c \<Longrightarrow> b \<noteq> c \<Longrightarrow> enc3 a b c = [(a, 1), (b, 1), (c, 1)]"
  by (simp add: enc3_def multiply_def dict_set_def dict_get_def)

lemma distinct_snd_inj:
  "distinct (map snd xs) \<Longrightarrow> (k1, v) \<in> set xs \<Longrightarrow> (k2, v) \<in> set xs \<Longrightarrow> k1 = k2"
  by (induction xs) (auto simp: image_iff)

lemma prime_of_inj:
  assumes wf: "kb_wf kb" and x: "registered kb x" and y: "registered kb y"
    and eq: "prime_of kb x = prime_of kb y"
  shows "lower x = lower y"
proof -
  have d: "distinct (map snd (concept_to_prime (encoder kb)))"
    using wf enc_wf_bijection by (simp add: kb_wf_def)
  have "(lower x, prime_of kb x) \<in> set (concept_to_prime (encoder kb))"
    using prime_of_lookup [OF x] by (rule map_of_SomeD)
  moreover have "(lower y, prime_of kb x) \<in> set (concept_to_prime (encoder kb))"
    using prime_of_lookup [OF y] eq by (simp add: map_of_SomeD)
  ultimately show ?thesis using distinct_snd_inj [OF d] by blast
qed

lemma registered_mono: "reach N kb kb' \<Longrightarrow> registered kb x \<Longrightarrow> registered kb' x"
  unfolding registered_def using c2p_keys_mono by blast

lemma prime_of_stable:
  assumes r: "reach N kb kb'" and x: "registered kb x"
  shows "prime_of kb' x = prime_of kb x"
proof -
  have "map_of (concept_to_prime (encoder kb)) \<subseteq>\<^sub>m map_of (concept_to_prime (encoder kb'))"
    using r by (rule reach_c2p)
  then have "map_of (concept_to_prime (encoder kb')) (lower x) = Some (prime_of kb x)"
    using prime_of_lookup [OF x] by (metis domI map_le_def)
  moreover have "map_of (concept_to_prime (encoder kb')) (lower x) = Some (prime_of kb' x)"
    using prime_of_lookup [OF registered_mono [OF r x]] .
  ultimately show ?thesis by simp
qed

section \<open>Stores whose encodings match their facts\<close>

definition store_ok :: "KnowledgeBase \<Rightarrow> bool" where
  "store_ok kb =
     ((\<forall>f \<in> set (facts kb). registered kb (subject f) \<and> registered kb (predicate f) \<and>
                              registered kb (object f)) \<and>
      fact_encodings kb = map (\<lambda>f. fst (encode_fact f kb)) (facts kb))"

lemma prime_of_after: "prime_of (snd (kb_get_prime x kb)) x = prime_of kb x"
proof -
  have "map_of (concept_to_prime (encoder (snd (kb_get_prime x kb)))) (lower x) = Some (prime_of kb x)"
    using get_prime_c2p [of x "encoder kb"] by (simp add: kb_get_prime_eq prime_of_def)
  moreover have "registered (snd (kb_get_prime x kb)) x"
    unfolding registered_def by (rule kb_get_prime_registered)
  ultimately show ?thesis using prime_of_lookup by fastforce
qed

lemma registered_after: "registered (snd (kb_get_prime x kb)) x"
  unfolding registered_def by (rule kb_get_prime_registered)

lemma encode_fact_fst:
  "fst (encode_fact g kb)
     = enc3 (prime_of (snd (encode_fact g kb)) (subject g))
            (prime_of (snd (encode_fact g kb)) (predicate g))
            (prime_of (snd (encode_fact g kb)) (object g))"
proof -
  let ?a = "snd (kb_get_prime (subject g) kb)"
  let ?b = "snd (kb_get_prime (predicate g) ?a)"
  let ?c = "snd (kb_get_prime (object g) ?b)"
  have c: "snd (encode_fact g kb) = ?c" by (rule encode_fact_eq)
  have f: "fst (encode_fact g kb)
             = enc3 (prime_of kb (subject g)) (prime_of ?a (predicate g)) (prime_of ?b (object g))"
    by (simp add: encode_fact_def encode_symbol_def kb_get_prime_eq prime_of_def enc3_def
          case_prod_beta)
  have rb: "reach UNIV ?a ?b" by (rule reach_one) simp
  have rc: "reach UNIV ?b ?c" by (rule reach_one) simp
  have rac: "reach UNIV ?a ?c" using rc rb by (rule reach_trans)
  have 1: "prime_of ?c (subject g) = prime_of kb (subject g)"
    using prime_of_stable [OF rac registered_after] prime_of_after by simp
  have 2: "prime_of ?c (predicate g) = prime_of ?a (predicate g)"
    using prime_of_stable [OF rc registered_after] prime_of_after by simp
  have 3: "prime_of ?c (object g) = prime_of ?b (object g)" by (rule prime_of_after)
  show ?thesis unfolding c f 1 2 3 ..
qed

lemma encode_fact_fst_registered:
  assumes "registered kb (subject f)" "registered kb (predicate f)" "registered kb (object f)"
  shows "fst (encode_fact f kb)
           = enc3 (prime_of kb (subject f)) (prime_of kb (predicate f)) (prime_of kb (object f))"
  using encode_fact_registered_id [OF assms] by simp

lemma with_fact_eq:
  "with_fact g kb =
     (snd (encode_fact g kb))
       \<lparr>fact_encodings := fact_encodings kb @ [fst (encode_fact g kb)],
        facts := facts kb @ [g]\<rparr>"
proof -
  have "same_store kb (snd (encode_fact g kb))"
    using reach_same_store [OF encode_fact_reach_UNIV] .
  then show ?thesis
    by (simp add: with_fact_def add_fact_def case_prod_beta same_store_def)
qed

lemma with_fact_store_ok:
  assumes ok: "store_ok kb"
  shows "store_ok (with_fact g kb)"
proof -
  let ?k1 = "snd (encode_fact g kb)"
  let ?k' = "with_fact g kb"
  have r: "reach UNIV kb ?k1" by (rule encode_fact_reach_UNIV)
  have enc: "encoder ?k' = encoder ?k1" by (simp add: with_fact_eq)
  have reg: "registered ?k' x = registered ?k1 x" for x by (simp add: registered_def enc)
  have po: "prime_of ?k' x = prime_of ?k1 x" for x
    by (simp add: prime_of_def kb_get_prime_eq enc)
  have fs: "facts ?k' = facts kb @ [g]" by (simp add: with_fact_eq)
  have es: "fact_encodings ?k' = fact_encodings kb @ [fst (encode_fact g kb)]"
    by (simp add: with_fact_eq)
  have gr: "registered ?k1 (subject g)" "registered ?k1 (predicate g)" "registered ?k1 (object g)"
    using encode_fact_registered [of g kb] by (simp_all add: registered_def)
  have old: "registered ?k' (subject f) \<and> registered ?k' (predicate f) \<and> registered ?k' (object f) \<and>
             fst (encode_fact f ?k') = fst (encode_fact f kb)"
    if f: "f \<in> set (facts kb)" for f
  proof -
    have fr: "registered kb (subject f)" "registered kb (predicate f)" "registered kb (object f)"
      using ok f by (auto simp: store_ok_def)
    have fr': "registered ?k' (subject f)" "registered ?k' (predicate f)" "registered ?k' (object f)"
      using fr registered_mono [OF r] by (simp_all add: reg)
    have "fst (encode_fact f ?k')
            = enc3 (prime_of ?k' (subject f)) (prime_of ?k' (predicate f)) (prime_of ?k' (object f))"
      using fr' by (rule encode_fact_fst_registered)
    also have "\<dots> = enc3 (prime_of kb (subject f)) (prime_of kb (predicate f)) (prime_of kb (object f))"
      using fr prime_of_stable [OF r] by (simp add: po)
    also have "\<dots> = fst (encode_fact f kb)"
      using fr by (simp add: encode_fact_fst_registered)
    finally show ?thesis using fr' by simp
  qed
  have new: "fst (encode_fact g ?k') = fst (encode_fact g kb)"
  proof -
    have "fst (encode_fact g ?k')
            = enc3 (prime_of ?k' (subject g)) (prime_of ?k' (predicate g)) (prime_of ?k' (object g))"
      using gr by (intro encode_fact_fst_registered) (simp_all add: reg)
    then show ?thesis using encode_fact_fst [of g kb] by (simp add: po)
  qed
  have "fact_encodings kb = map (\<lambda>f. fst (encode_fact f ?k')) (facts kb)"
    using ok old by (simp add: store_ok_def)
  then have "fact_encodings ?k' = map (\<lambda>f. fst (encode_fact f ?k')) (facts ?k')"
    unfolding es fs using new by simp
  moreover have "\<forall>f \<in> set (facts ?k'). registered ?k' (subject f) \<and> registered ?k' (predicate f) \<and>
                              registered ?k' (object f)"
    unfolding fs using old gr by (auto simp: reg)
  ultimately show ?thesis unfolding store_ok_def by blast
qed

lemma empty_kb_store: "facts empty_kb = [] \<and> fact_encodings empty_kb = [] \<and> rules empty_kb = []"
  by (simp add: empty_kb_def KnowledgeBase_init_def)

lemma with_fact_rules: "rules (with_fact g kb) = rules kb"
  using reach_same_store [OF encode_fact_reach_UNIV, of kb g]
  by (simp add: with_fact_eq same_store_def)

lemma chain_store_Suc: "chain_store (Suc n) = with_fact (chain_fact n) (chain_store n)"
  by (simp add: chain_store_def)

lemma chain_store_props:
  "kb_wf (chain_store n) \<and> store_ok (chain_store n) \<and> rules (chain_store n) = [] \<and>
   facts (chain_store n) = map chain_fact [0..<n]"
proof (induction n)
  case 0
  then show ?case
    using empty_kb_wf empty_kb_store by (simp add: chain_store_def store_ok_def)
next
  case (Suc n)
  have "facts (chain_store (Suc n)) = map chain_fact [0..<Suc n]"
    using Suc by (simp add: chain_store_Suc with_fact_eq)
  moreover have "kb_wf (chain_store (Suc n))"
    unfolding chain_store_Suc using Suc by (intro with_fact_wf) simp
  moreover have "store_ok (chain_store (Suc n))"
    unfolding chain_store_Suc using Suc by (intro with_fact_store_ok) simp
  moreover have "rules (chain_store (Suc n)) = []"
    unfolding chain_store_Suc using Suc by (simp add: with_fact_rules)
  ultimately show ?case by simp
qed

section \<open>A chain of stored facts needs one nested call per fact\<close>

definition chain_goal :: "nat \<Rightarrow> nat \<Rightarrow> Fact" where
  "chain_goal n i = mk_fact (chain_name i) ''is'' (chain_name n)"

lemma chain_name_inj: "chain_name i = chain_name j \<longleftrightarrow> i = j"
proof
  assume "chain_name i = chain_name j"
  then have "length (chain_name i) = length (chain_name j)" by simp
  then show "i = j" by (simp add: chain_name_def)
qed simp

lemma chain_name_lower: "lower (chain_name i) = chain_name i"
proof -
  have "lower_char CHR ''c'' = CHR ''c''" by code_simp
  then show ?thesis by (simp add: chain_name_def lower_def)
qed

lemma chain_name_not_is: "chain_name i \<noteq> ''is''"
  by (simp add: chain_name_def)

lemma chain_goal_key_inj: "str_fact (chain_goal n i) = str_fact (chain_goal n j) \<longleftrightarrow> i = j"
  by (simp add: chain_goal_def mk_fact_def str_fact_def chain_name_inj)

lemma find_direct_none:
  "(\<forall>f \<in> set fs. \<not> dict_eq (g f) qe) \<Longrightarrow> find_direct (zip (map g fs) fs) qe = None"
  by (induction fs) auto

lemma chain_no_rules:
  assumes ru: "rules kb = []" and reg: "registered kb s" and st: "s \<noteq> t"
  shows "\<exists>c cv. universal_chain d kb s t {} = (c, kb, cv) \<and> (\<forall>ch. c \<noteq> Inr (Some ch))"
proof (cases d)
  case 0
  then show ?thesis by simp
next
  case (Suc k)
  then show ?thesis
    using st ru by (simp add: kb_get_prime_registered_id [OF reg])
qed

lemma trans_facts_chain:
  assumes rec: "rec kb (chain_goal n (Suc i)) v = Inl err"
  shows "i = a + k \<Longrightarrow> i < n \<Longrightarrow> length es = n - a \<Longrightarrow>
         trans_facts rec (zip es (map chain_fact [a..<n])) (chain_goal n i) kb v = Inl err"
proof (induction k arbitrary: a es)
  case 0
  then have a: "a = i" by simp
  have u: "[a..<n] = a # [Suc a..<n]" using 0 by (simp add: upt_conv_Cons)
  obtain e es' where es: "es = e # es'" using 0 by (cases es) auto
  have m: "\<lparr>subject = object (chain_fact i), predicate = predicate (chain_goal n i),
            object = object (chain_goal n i)\<rparr> = chain_goal n (Suc i)"
    by (simp add: chain_fact_def chain_goal_def mk_fact_def)
  have s: "subject (chain_fact i) = subject (chain_goal n i) \<and>
           predicate (chain_fact i) = predicate (chain_goal n i)"
    by (simp add: chain_fact_def chain_goal_def mk_fact_def)
  show ?case unfolding u es using a s m rec by (simp add: Let_def)
next
  case (Suc k)
  have an: "a < n" using Suc.prems by simp
  have u: "[a..<n] = a # [Suc a..<n]" using an by (simp add: upt_conv_Cons)
  obtain e es' where es: "es = e # es'" using Suc.prems an by (cases es) auto
  have len: "length es' = n - Suc a" using Suc.prems es by simp
  have ne: "subject (chain_fact a) \<noteq> subject (chain_goal n i)"
    using Suc.prems(1) by (simp add: chain_fact_def chain_goal_def mk_fact_def chain_name_inj)
  have "trans_facts rec (zip es' (map chain_fact [Suc a..<n])) (chain_goal n i) kb v = Inl err"
    using Suc.IH [of "Suc a" es'] Suc.prems len by simp
  then show ?case unfolding u es using ne by simp
qed

lemma chain_registered:
  assumes ok: "store_ok kb" and fs: "facts kb = map chain_fact [0..<n]" and n: "0 < n"
  shows "registered kb ''is''" and "k \<le> n \<Longrightarrow> registered kb (chain_name k)"
proof -
  have all: "registered kb (chain_name j) \<and> registered kb ''is'' \<and> registered kb (chain_name (Suc j))"
    if "j < n" for j
  proof -
    have "chain_fact j \<in> set (facts kb)" using that fs by simp
    then show ?thesis using ok by (auto simp: store_ok_def chain_fact_def mk_fact_def)
  qed
  show "registered kb ''is''" using all [of 0] n by simp
  show "registered kb (chain_name k)" if "k \<le> n"
  proof (cases "k < n")
    case True
    then show ?thesis using all by simp
  next
    case False
    then have "k = n" using that by simp
    then obtain j where "k = Suc j" "j < n" using n by (cases n) auto
    then show ?thesis using all by simp
  qed
qed

lemma chain_primes_distinct:
  assumes wf: "kb_wf kb" and ok: "store_ok kb" and fs: "facts kb = map chain_fact [0..<n]"
    and n: "0 < n"
  shows "i \<le> n \<Longrightarrow> j \<le> n \<Longrightarrow> prime_of kb (chain_name i) = prime_of kb (chain_name j) \<Longrightarrow> i = j"
    and "i \<le> n \<Longrightarrow> prime_of kb (chain_name i) \<noteq> prime_of kb ''is''"
proof -
  note reg = chain_registered [OF ok fs n]
  show "i = j" if "i \<le> n" "j \<le> n" "prime_of kb (chain_name i) = prime_of kb (chain_name j)"
    using prime_of_inj [OF wf reg(2) [OF that(1)] reg(2) [OF that(2)] that(3)]
    by (simp add: chain_name_lower chain_name_inj)
  show "prime_of kb (chain_name i) \<noteq> prime_of kb ''is''" if "i \<le> n"
  proof
    assume "prime_of kb (chain_name i) = prime_of kb ''is''"
    then have "lower (chain_name i) = lower ''is''"
      using prime_of_inj [OF wf reg(2) [OF that] reg(1)] by simp
    then show False using chain_name_not_is by (simp add: chain_name_lower lower_is)
  qed
qed

lemma chain_no_direct:
  assumes wf: "kb_wf kb" and ok: "store_ok kb" and fs: "facts kb = map chain_fact [0..<n]"
    and i: "Suc i < n" and j: "j < n"
  shows "\<not> dict_eq (fst (encode_fact (chain_fact j) kb)) (fst (encode_fact (chain_goal n i) kb))"
proof
  assume eq: "dict_eq (fst (encode_fact (chain_fact j) kb)) (fst (encode_fact (chain_goal n i) kb))"
  have n: "0 < n" using j by simp
  note reg = chain_registered [OF ok fs n]
  note dis = chain_primes_distinct [OF wf ok fs n]
  let ?p = "\<lambda>k. prime_of kb (chain_name k)" and ?is = "prime_of kb ''is''"
  have d1: "?p j \<noteq> ?is" "?p (Suc j) \<noteq> ?is" "?p j \<noteq> ?p (Suc j)"
    using dis(2) [of j] dis(2) [of "Suc j"] dis(1) [of j "Suc j"] j by auto
  have d2: "?p i \<noteq> ?is" "?p n \<noteq> ?is" "?p i \<noteq> ?p n"
    using dis(2) [of i] dis(2) [of n] dis(1) [of i n] i by auto
  have e1: "fst (encode_fact (chain_fact j) kb) = [(?p j, 1), (?is, 1), (?p (Suc j), 1)]"
    using reg j d1
    by (simp add: encode_fact_fst_registered chain_fact_def mk_fact_def enc3_distinct)
  have e2: "fst (encode_fact (chain_goal n i) kb) = [(?p i, 1), (?is, 1), (?p n, 1)]"
    using reg i d2
    by (simp add: encode_fact_fst_registered chain_goal_def mk_fact_def enc3_distinct)
  have s: "{?p j, ?is, ?p (Suc j)} = {?p i, ?is, ?p n}"
  proof -
    have "set [(?p j, 1::int), (?is, 1), (?p (Suc j), 1)] = set [(?p i, 1), (?is, 1), (?p n, 1)]"
      using eq unfolding e1 e2 dict_eq_def .
    then have "fst ` set [(?p j, 1::int), (?is, 1), (?p (Suc j), 1)]
                 = fst ` set [(?p i, 1::int), (?is, 1), (?p n, 1)]" by simp
    then show ?thesis by simp
  qed
  have "?p n \<in> {?p j, ?is, ?p (Suc j)}" using s by simp
  then have "?p n = ?p j \<or> ?p n = ?p (Suc j)" using d2 by auto
  then have nj: "n = Suc j" using dis(1) [of n j] dis(1) [of n "Suc j"] j by auto
  have "?p j \<in> {?p i, ?is, ?p n}" using s by blast
  then have "?p j = ?p i \<or> ?p j = ?p n" using d1 by auto
  then have "j = i" using dis(1) [of j i] dis(1) [of j n] i j by auto
  then show False using nj i by simp
qed

lemma deduce_rec_chain:
  assumes wf: "kb_wf kb" and ok: "store_ok kb" and ru: "rules kb = []"
    and fs: "facts kb = map chain_fact [0..<n]"
  shows "i + d < n \<Longrightarrow> (\<forall>k. i \<le> k \<longrightarrow> str_fact (chain_goal n k) \<notin> v) \<Longrightarrow>
         deduce_rec d kb (chain_goal n i) v = Inl RecursionError"
proof (induction d arbitrary: i v)
  case 0
  then show ?case by simp
next
  case (Suc d)
  let ?q = "chain_goal n i"
  let ?v1 = "insert (str_fact ?q) v"
  have i: "Suc i < n" using Suc.prems(1) by simp
  have n: "0 < n" using i by simp
  note reg = chain_registered [OF ok fs n]
  have nv: "str_fact ?q \<notin> v" using Suc.prems(2) by simp
  have p: "predicate ?q = ''is''" "subject ?q = chain_name i" "object ?q = chain_name n"
    by (simp_all add: chain_goal_def mk_fact_def)
  have ne: "chain_name i \<noteq> chain_name n" using i by (simp add: chain_name_inj)
  obtain c cv where ch: "universal_chain d kb (chain_name i) (chain_name n) {} = (c, kb, cv)"
    and cn: "\<forall>ch. c \<noteq> Inr (Some ch)"
    using chain_no_rules [OF ru reg(2) ne, where d = d] i by auto
  have step: "deduce_rec (Suc d) kb ?q v = deduce_steps (deduce_rec d) ?q kb ?v1"
    using nv p ne ch cn by (auto simp: Let_def split: sum.splits option.splits)
  have "\<forall>k. Suc i \<le> k \<longrightarrow> str_fact (chain_goal n k) \<notin> ?v1"
    using Suc.prems(2) by (auto simp: chain_goal_key_inj)
  then have rec: "deduce_rec d kb (chain_goal n (Suc i)) ?v1 = Inl RecursionError"
    using Suc.IH [of "Suc i" ?v1] Suc.prems(1) by simp
  have qr: "registered kb (subject ?q)" "registered kb (predicate ?q)" "registered kb (object ?q)"
    using reg i by (simp_all add: p)
  have enc: "encode_fact ?q kb = (fst (encode_fact ?q kb), kb)"
    using encode_fact_registered_id [OF qr] by simp
  have es: "fact_encodings kb = map (\<lambda>f. fst (encode_fact f kb)) (facts kb)"
    using ok by (simp add: store_ok_def)
  have nd: "find_direct (zip (fact_encodings kb) (facts kb)) (fst (encode_fact ?q kb)) = None"
    unfolding es
    using chain_no_direct [OF wf ok fs i] fs by (intro find_direct_none) auto
  have tr: "trans_facts (deduce_rec d) (zip (fact_encodings kb) (facts kb)) ?q kb ?v1
              = Inl RecursionError"
    unfolding fs
    using trans_facts_chain [where rec = "deduce_rec d" and kb = kb and n = n and i = i
            and v = ?v1 and err = RecursionError and a = 0 and k = i
            and es = "fact_encodings kb"] rec i es fs
    by simp
  have "deduce_steps (deduce_rec d) ?q kb ?v1 = Inl RecursionError"
    unfolding deduce_steps_def using nd tr p(1)
    by (subst enc) (simp add: ru)
  then show ?case using step by simp
qed

text \<open>
  Claim C2. For every knowledge store and every query, \<open>deduce\<close> returns a result record
  and raises nothing. The recursive calls of \<open>deduce\<close> are outside its only \<open>try\<close>, and
  the depth it threads through them is never compared with anything, so the nesting is
  bounded by the interpreter alone. On the store of the \<open>n\<close> facts "c is cc", "cc is ccc",
  ... the query whether the first name is the last one walks the transitive step once per
  fact: whenever the interpreter allows fewer than \<open>n\<close> nested calls, \<open>RecursionError\<close>
  leaves \<open>deduce\<close>. CPython allows 1000 frames by default, counting every call.
\<close>

theorem deduce_recursion_error:
  assumes "depth < n"
  shows "deduce depth (chain_store n) (chain_query n) = Inl RecursionError"
proof -
  have q: "chain_query n = chain_goal n 0" by (simp add: chain_query_def chain_goal_def)
  have "deduce_rec depth (chain_store n) (chain_goal n 0) {} = Inl RecursionError"
    using chain_store_props [of n] assms by (intro deduce_rec_chain) simp_all
  then show ?thesis by (simp add: deduce_def q)
qed

theorem deduce_recursion_error_witness:
  "(1000 :: nat) < 1200 \<and>
   deduce 1000 (chain_store 1200) (chain_query 1200) = Inl RecursionError"
proof -
  have "(1000 :: nat) < 1200" by simp
  then show ?thesis using deduce_recursion_error [of 1000 1200] by blast
qed

text \<open>
  The bound is sharp: three nested calls answer the query on the store of three facts, two
  do not.
\<close>

lemma deduce_chain_store_example:
  "map_sum id fst (deduce 3 (chain_store 3) (chain_query 3))
     = Inr \<lparr>result = True,
            explanation = ''c is cc, and cc is ccc, and Direct fact in knowledge base: ccc is cccc'',
            equation = None\<rparr> \<and>
   deduce 2 (chain_store 3) (chain_query 3) = Inl RecursionError"
  by code_simp

section \<open>The transitive shortcut for "is"\<close>

text \<open>
  What the shortcut does achieve is \<open>deduce_chain\<close>: when the predicate is "is", the object
  differs from the subject and is reachable from it along \<open>edge\<close>, and the interpreter allows
  more nested calls than there are names, \<open>deduce\<close> returns the hop-by-hop explanation and
  the equation of a chain of universal rules from the subject to the object. An edge leads
  from a name to the registered, lower-cased name of a rule's property; stored facts play no
  part, because the shortcut is taken before the query is encoded and compared with them.
  The documented example, on a store that also holds the queried fact itself:
\<close>

lemma deduce_hilbert_chain:
  "mk_fact ''Hilbert_spaces'' ''is'' ''normed_spaces'' \<in> set (facts hilbert_kb) \<and>
   map_sum id fst (deduce 1000 hilbert_kb (mk_fact ''Hilbert_spaces'' ''is'' ''normed_spaces''))
     = Inr \<lparr>result = True,
            explanation = ''Hilbert_spaces are inner_product_spaces, and inner_product_spaces are normed_spaces'',
            equation = Some (''Hilbert_spaces '' @ subseteq_sym @ '' inner_product_spaces ''
                             @ subseteq_sym @ '' normed_spaces'')\<rparr>"
  by code_simp

text \<open>
  Claim C3. If the predicate of the query is "is" and a chain of universal rules links the
  subject to the object, \<open>deduce\<close> returns entailed with the chain as explanation and
  equation. The search walks along registered names, which are lower-cased, but compares
  them with the target by string equality, although the subject is matched through its prime
  and the rule step of \<open>deduce\<close> matches the object through its prime. So a target
  written with a capital letter is never reached. With the single rule
  "all Hilbert_spaces are Banach_spaces" the query "Hilbert_spaces is Banach_spaces" is
  answered "Could not deduce", while "Hilbert_spaces is banach_spaces", the same concept, is
  entailed by the chain.
\<close>

theorem chain_misses_capitalised_target:
  "map_sum id fst (deduce 1000 banach_kb (mk_fact ''Hilbert_spaces'' ''is'' ''Banach_spaces''))
     = Inr \<lparr>result = False,
            explanation = ''Could not deduce: Hilbert_spaces is Banach_spaces'',
            equation = None\<rparr> \<and>
   map_sum id fst (deduce 1000 banach_kb (mk_fact ''Hilbert_spaces'' ''is'' ''banach_spaces''))
     = Inr (chain_result [''Hilbert_spaces'', ''banach_spaces'']) \<and>
   fst (kb_get_prime ''Banach_spaces'' banach_kb) = fst (kb_get_prime ''banach_spaces'' banach_kb)"
  by code_simp

section \<open>Queries grow the registry\<close>

text \<open>
  Claim C10. A query with names not seen before interns the lower-cased subject, predicate
  and object. As stated this fails for an identity query, which returns before anything is
  encoded: on a fresh knowledge base \<open>deduce(Zebra is Zebra)\<close> is entailed and the registry
  still holds the sign marker only.
\<close>

theorem identity_query_interns_nothing:
  "map_sum id (result \<circ> fst) (deduce 1000 empty_kb (mk_fact ''Zebra'' ''is'' ''Zebra''))
     = Inr True \<and>
   map_sum id (concept_to_prime \<circ> encoder \<circ> snd)
     (deduce 1000 empty_kb (mk_fact ''Zebra'' ''is'' ''Zebra'')) = Inr [(''_sign'', 2)] \<and>
   concept_to_prime (encoder empty_kb) = [(''_sign'', 2)]"
  by code_simp

text \<open>
  Claim C10, amended. For a query that is not an identity query (predicate "is" with equal
  subject and object) on a well-formed knowledge base: whenever \<open>deduce\<close> returns, the
  lower-cased subject, predicate and object are keys of the concept-to-prime dictionary of
  the returned state; that dictionary is the old one with entries appended; it is still
  one-to-one; and each of the three names that was not a key before has a prime that no
  name had before.
\<close>

theorem deduce_interns_query:
  assumes "kb_wf kb" and "\<not> (predicate q = ''is'' \<and> subject q = object q)"
    and "deduce depth kb q = Inr (r, kb')"
  shows "{lower (subject q), lower (predicate q), lower (object q)}
           \<subseteq> fst ` set (concept_to_prime (encoder kb')) \<and>
         (\<exists>new. concept_to_prime (encoder kb') = concept_to_prime (encoder kb) @ new) \<and>
         distinct (map fst (concept_to_prime (encoder kb'))) \<and>
         distinct (map snd (concept_to_prime (encoder kb'))) \<and>
         (\<forall>x \<in> {lower (subject q), lower (predicate q), lower (object q)}.
            x \<notin> fst ` set (concept_to_prime (encoder kb)) \<longrightarrow>
            (\<exists>p. map_of (concept_to_prime (encoder kb')) x = Some p \<and>
                 p \<notin> snd ` set (concept_to_prime (encoder kb))))"
proof -
  let ?c = "concept_to_prime (encoder kb)" and ?c' = "concept_to_prime (encoder kb')"
  let ?Q = "{lower (subject q), lower (predicate q), lower (object q)}"
  have re: "reach (universe kb q) kb kb'" using assms(3) by (rule deduce_post)
  have "enc_wf (encoder kb')" using reach_wf [OF re assms(1)] by (simp add: kb_wf_def)
  then have d: "distinct (map fst ?c')" "distinct (map snd ?c')"
    using enc_wf_bijection by blast+
  have keys: "?Q \<subseteq> fst ` set ?c'" using deduce_registers [OF assms] .
  obtain new where new: "?c' = ?c @ new" using reach_c2p_extends [OF re assms(1)] by blast
  have fresh: "\<exists>p. map_of ?c' x = Some p \<and> p \<notin> snd ` set ?c"
    if x: "x \<in> ?Q" "x \<notin> fst ` set ?c" for x
  proof -
    have "x \<in> fst ` set ?c'" using keys x(1) by blast
    then obtain p where p: "map_of ?c' x = Some p"
      by (metis domD dom_map_of_conv_image_fst)
    then have "(x, p) \<in> set ?c'" by (rule map_of_SomeD)
    then have "(x, p) \<in> set new" using new x(2) by (auto simp: image_iff)
    then have "p \<in> snd ` set new" by force
    moreover have "snd ` set ?c \<inter> snd ` set new = {}"
      using d(2) new by auto
    ultimately have "p \<notin> snd ` set ?c" by blast
    then show ?thesis using p by blast
  qed
  show ?thesis using keys new d fresh by blast
qed

theorem deduce_interns_query_witness:
  "kb_wf demo_kb \<and>
   \<not> (predicate (mk_fact ''Penguin'' ''can'' ''fly'') = ''is'' \<and>
      subject (mk_fact ''Penguin'' ''can'' ''fly'') = object (mk_fact ''Penguin'' ''can'' ''fly'')) \<and>
   lower ''Penguin'' = ''penguin'' \<and>
   ''penguin'' \<notin> fst ` set (concept_to_prime (encoder demo_kb)) \<and>
   (\<exists>r kb'. deduce 1000 demo_kb (mk_fact ''Penguin'' ''can'' ''fly'') = Inr (r, kb') \<and>
      concept_to_prime (encoder kb') = concept_to_prime (encoder demo_kb) @ [(''penguin'', 47)] \<and>
      {lower ''Penguin'', lower ''can'', lower ''fly''} \<subseteq> fst ` set (concept_to_prime (encoder kb')) \<and>
      distinct (map fst (concept_to_prime (encoder kb'))) \<and>
      distinct (map snd (concept_to_prime (encoder kb'))) \<and>
      (\<exists>p. map_of (concept_to_prime (encoder kb')) ''penguin'' = Some p \<and>
           p \<notin> snd ` set (concept_to_prime (encoder demo_kb))))"
proof -
  let ?q = "mk_fact ''Penguin'' ''can'' ''fly''"
  have ni: "\<not> (predicate ?q = ''is'' \<and> subject ?q = object ?q)" by (simp add: mk_fact_def)
  have lo: "lower ''Penguin'' = ''penguin''" by code_simp
  have nk: "''penguin'' \<notin> fst ` set (concept_to_prime (encoder demo_kb))" by code_simp
  have ev: "case deduce 1000 demo_kb ?q of
              Inr (r, kb') \<Rightarrow>
                concept_to_prime (encoder kb') = concept_to_prime (encoder demo_kb) @ [(''penguin'', 47)]
            | _ \<Rightarrow> False"
    by code_simp
  then obtain r kb' where run: "deduce 1000 demo_kb ?q = Inr (r, kb')"
    and c: "concept_to_prime (encoder kb') = concept_to_prime (encoder demo_kb) @ [(''penguin'', 47)]"
    by (auto split: sum.splits)
  note th = deduce_interns_query [OF demo_kb_wf ni run]
  have k: "{lower (subject ?q), lower (predicate ?q), lower (object ?q)}
           \<subseteq> fst ` set (concept_to_prime (encoder kb'))"
    and d: "distinct (map fst (concept_to_prime (encoder kb')))"
           "distinct (map snd (concept_to_prime (encoder kb')))"
    and f: "\<forall>x \<in> {lower (subject ?q), lower (predicate ?q), lower (object ?q)}.
            x \<notin> fst ` set (concept_to_prime (encoder demo_kb)) \<longrightarrow>
            (\<exists>p. map_of (concept_to_prime (encoder kb')) x = Some p \<and>
                 p \<notin> snd ` set (concept_to_prime (encoder demo_kb)))"
    using th by blast+
  have k': "{lower ''Penguin'', lower ''can'', lower ''fly''} \<subseteq> fst ` set (concept_to_prime (encoder kb'))"
    using k by (simp add: mk_fact_def)
  have "lower (subject ?q) = ''penguin''" using lo by (simp add: mk_fact_def)
  then have f': "\<exists>p. map_of (concept_to_prime (encoder kb')) ''penguin'' = Some p \<and>
                 p \<notin> snd ` set (concept_to_prime (encoder demo_kb))"
    using f nk by (metis insertI1)
  show ?thesis using demo_kb_wf ni lo nk run c k' d f' by blast
qed

end
